theory Spec2Isabelle
  imports Complex_Main "HOL-Library.Multiset"
begin

section \<open>Python values, failures and containers\<close>

text \<open>
  The exceptions that the methods of \<open>PermutationCover\<close> can raise. A method that may
  raise returns \<open>error + 'a\<close>, with \<open>Inl\<close> for the exception.
\<close>

datatype error =
  ValueError | IndexError | KeyError | ZeroDivisionError | TypeError | AssertionError

text \<open>
  Subscripting a Python list: an index below zero is counted from the end of the list, and
  an index outside the list raises \<open>IndexError\<close>.
\<close>

definition py_pos :: "nat \<Rightarrow> int \<Rightarrow> error + nat" where
  "py_pos len i =
     (if 0 \<le> i \<and> i < int len then Inr (nat i)
      else if i < 0 \<and> 0 \<le> int len + i then Inr (nat (int len + i))
      else Inl IndexError)"

definition getitem :: "'a list \<Rightarrow> int \<Rightarrow> error + 'a" where
  "getitem xs i = (case py_pos (length xs) i of Inl e \<Rightarrow> Inl e | Inr k \<Rightarrow> Inr (xs ! k))"

definition setitem :: "'a list \<Rightarrow> int \<Rightarrow> 'a \<Rightarrow> error + 'a list" where
  "setitem xs i v = (case py_pos (length xs) i of Inl e \<Rightarrow> Inl e | Inr k \<Rightarrow> Inr (xs[k := v]))"

text \<open>A \<open>for\<close> loop whose body may raise: the first exception ends the loop.\<close>

fun for_loop :: "('s \<Rightarrow> 'a \<Rightarrow> error + 's) \<Rightarrow> 'a list \<Rightarrow> 's \<Rightarrow> error + 's" where
  "for_loop body [] s = Inr s"
| "for_loop body (x # xs) s =
     (case body s x of Inl e \<Rightarrow> Inl e | Inr s' \<Rightarrow> for_loop body xs s')"

section \<open>The cover and its collaborators\<close>

text \<open>
  The base permutation is a collaborator: the cover reads its alphabet, its two lines of
  labels, its twins, its kind and its interval diagrams. A label is identified with its rank
  in the alphabet, so \<open>alphabet.rank\<close> is the identity on \<open>{0..<alphabet_size}\<close>.
  An entry of an interval diagram is an occurrence \<open>(label, sign)\<close> or, where two ends are
  glued, a tuple of occurrences; the sign is 0 for the first occurrence of the label and 1
  for the second, in the order in which the two lines are read. \<open>twin_to_index\<close> is the
  second component of \<open>_twins_and_orientation()\<close>, with the same signs.
\<close>

datatype diagram_entry = Occ nat int | Glued "(nat \<times> int) list"

datatype twin_entry = TwinInt int | TwinPair int int

record base_permutation =
  is_iet :: bool
  is_irreducible :: bool
  alphabet_size :: nat
  length_base :: nat
  line0 :: "nat list"
  line1 :: "nat list"
  twin :: "twin_entry list \<times> twin_entry list"
  twin_to_index :: "int list \<times> int list"
  diagram_glued :: "diagram_entry list list"
  diagram_unglued :: "(nat \<times> int) list list"

record PermutationCover =
  base :: base_permutation
  degree_cover :: nat
  permut_cover :: "int list list"

definition init :: "base_permutation \<Rightarrow> nat \<Rightarrow> int list list \<Rightarrow> error + PermutationCover" where
  "init b degree permut =
     (if \<not> is_irreducible b then Inl ValueError
      else Inr \<lparr>base = b, degree_cover = degree, permut_cover = permut\<rparr>)"

text \<open>
  The group-theory provider and the Python runtime. \<open>Order\<close> is \<open>libgap.Order(G)\<close> for the
  automorphism group \<open>G\<close> of the cover, \<open>Irr\<close> the list \<open>libgap.Irr(T)\<close> of its irreducible
  characters, read as \<open>irr_characters[i][j]\<close>, \<open>Degree\<close> is \<open>libgap.Degree\<close> on a
  character, and \<open>ListPerm\<close> holds \<open>libgap.ListPerm(elements_group[i], degree)\<close> for each
  element of \<open>libgap.Elements(G)\<close>, with images counted from one. The provider lists a
  character as its values on the conjugacy classes of \<open>G\<close>, and a group has as many
  irreducible characters as conjugacy classes: the table \<open>Irr\<close> is square. \<open>set_order\<close> is
  the order in which a Python \<open>set\<close> built from a list gives up its elements under \<open>pop\<close>;
  the properties below hold for every such order.
\<close>

record provider =
  Order :: nat
  Irr :: "complex list list"
  Degree :: "complex list \<Rightarrow> int"
  ListPerm :: "int list list"
  set_order :: "complex list list \<Rightarrow> complex list list"

section \<open>Characters of the automorphism group\<close>

definition is_real :: "complex \<Rightarrow> bool" where
  "is_real x = (Im x = 0)"

text \<open>
  The loop \<open>while character_set: chi = character_set.pop() ...\<close> of \<open>_characters\<close>. The
  first argument is \<open>n_characters\<close>, the number of irreducible characters, which the source
  uses as the range of the comprehension that adds a character to its conjugate. The set is
  given in its pop order. \<open>character_set.remove\<close> raises \<open>KeyError\<close> when the conjugate is
  not in the set, and \<open>chi[j]\<close> raises \<open>IndexError\<close> when \<open>chi\<close> is shorter than
  \<open>n_characters\<close>. The counter \<open>i\<close> of the source is never read and is left out.
\<close>

function extract_real :: "nat \<Rightarrow> complex list list \<Rightarrow> error + complex list list" where
  "extract_real n [] = Inr []"
| "extract_real n (chi # character_set) =
     (if \<exists>x\<in>set chi. \<not> is_real x then
        (if map cnj chi \<notin> set character_set then Inl KeyError
         else if length chi < n then Inl IndexError
         else (case extract_real n (remove1 (map cnj chi) character_set) of
                 Inl e \<Rightarrow> Inl e
               | Inr table \<Rightarrow> Inr (map (\<lambda>j. chi ! j + cnj (chi ! j)) [0..<n] # table)))
      else (case extract_real n character_set of
              Inl e \<Rightarrow> Inl e
            | Inr table \<Rightarrow> Inr (chi # table)))"
  by pat_completeness auto
termination
  by (relation "measure (\<lambda>(n, cs). length cs)") (auto simp: length_remove1 less_Suc_eq_le)

record characters =
  real_character_table :: "complex list list"
  character_degree :: "int list"
  G_order :: nat
  perm :: "int list list"
  n_real_characters :: nat

text \<open>
  \<open>_characters\<close>. The comprehension over \<open>xrange(G_order)\<close> reads \<open>irr_characters[i][j]\<close>
  and the one over \<open>range(G_order)\<close> reads \<open>elements_group[i]\<close>; both raise \<open>IndexError\<close>
  on a list that is too short.
\<close>

definition characters :: "provider \<Rightarrow> error + characters" where
  "characters P =
     (let n_characters = length (Irr P) in
      if \<exists>chi\<in>set (Irr P). length chi < Order P then Inl IndexError
      else if length (ListPerm P) < Order P then Inl IndexError
      else
        (case extract_real n_characters (set_order P (map (take (Order P)) (Irr P))) of
           Inl e \<Rightarrow> Inl e
         | Inr table \<Rightarrow>
             Inr \<lparr>real_character_table = table,
                  character_degree = map (Degree P) (Irr P),
                  G_order = Order P,
                  perm = map (map (\<lambda>i. i - 1)) (take (Order P) (ListPerm P)),
                  n_real_characters = length table\<rparr>))"

definition character_table :: "provider \<Rightarrow> error + complex list list" where
  "character_table P = map_sum id real_character_table (characters P)"

definition automorphism_group_order :: "provider \<Rightarrow> error + nat" where
  "automorphism_group_order P = map_sum id G_order (characters P)"

definition automorphism_group_permutation :: "provider \<Rightarrow> error + int list list" where
  "automorphism_group_permutation P = map_sum id perm (characters P)"

definition n_characters :: "provider \<Rightarrow> error + nat" where
  "n_characters P = map_sum id n_real_characters (characters P)"

text \<open>
  Notions for stating what the folding does: a character all of whose values are real, and
  the set \<open>character_set\<close> of the source, in its pop order.
\<close>

definition self_conjugate :: "complex list \<Rightarrow> bool" where
  "self_conjugate chi = (\<forall>x\<in>set chi. is_real x)"

definition character_set :: "provider \<Rightarrow> complex list list" where
  "character_set P = set_order P (map (take (Order P)) (Irr P))"


section \<open>The relative homology basis and the isotypic projection\<close>

definition rel_homology_generator :: "PermutationCover \<Rightarrow> (nat \<times> nat) list" where
  "rel_homology_generator c =
     concat (map (\<lambda>d. map (\<lambda>a. (d, a)) [0..<alphabet_size (base c)]) [0..<degree_cover c])"

definition rel_homology_index :: "PermutationCover \<Rightarrow> int \<Rightarrow> nat \<Rightarrow> int" where
  "rel_homology_index c d a = d * int (alphabet_size (base c)) + int a"

text \<open>
  The body of the two nested \<open>for\<close> statements of \<open>isotypic_projection_matrix\<close>:
  \<open>res[i][j] += coeff*char[t]\<close> with \<open>i = d*len(alphabet) + rank(a)\<close> and
  \<open>j = perm[t][d-1]*len(alphabet) + rank(a)\<close>.
\<close>

definition add_term ::
  "characters \<Rightarrow> nat \<Rightarrow> complex list \<Rightarrow> complex \<Rightarrow> nat \<times> nat \<Rightarrow>
   complex list list \<Rightarrow> nat \<Rightarrow> error + complex list list" where
  "add_term ch n char coeff da res t =
     (let i = int (fst da) * int n + int (snd da) in
      case getitem (perm ch) (int t) of Inl e \<Rightarrow> Inl e | Inr pt \<Rightarrow>
      case getitem pt (int (fst da) - 1) of Inl e \<Rightarrow> Inl e | Inr img \<Rightarrow>
      (let j = img * int n + int (snd da) in
       case getitem res i of Inl e \<Rightarrow> Inl e | Inr row \<Rightarrow>
       case getitem row j of Inl e \<Rightarrow> Inl e | Inr old \<Rightarrow>
       case getitem char (int t) of Inl e \<Rightarrow> Inl e | Inr v \<Rightarrow>
       case setitem row j (old + coeff * v) of Inl e \<Rightarrow> Inl e | Inr row' \<Rightarrow>
       setitem res i row'))"

definition isotypic_projection_matrix ::
  "provider \<Rightarrow> PermutationCover \<Rightarrow> int \<Rightarrow> error + complex list list" where
  "isotypic_projection_matrix P c i_character =
     (case characters P of Inl e \<Rightarrow> Inl e | Inr ch \<Rightarrow>
      (let size_of_matrix = length (rel_homology_generator c);
           res = replicate size_of_matrix (replicate size_of_matrix 0)
       in
       case getitem (real_character_table ch) i_character of Inl e \<Rightarrow> Inl e | Inr char \<Rightarrow>
       case getitem (character_degree ch) i_character of Inl e \<Rightarrow> Inl e | Inr deg \<Rightarrow>
       if G_order ch = 0 then Inl ZeroDivisionError
       else
         for_loop
           (\<lambda>res da.
              for_loop
                (add_term ch (alphabet_size (base c)) char
                   (of_int deg / of_nat (G_order ch)) da)
                [0..<G_order ch] res)
           (rel_homology_generator c) res))"

text \<open>Matrices are lists of rows.\<close>

definition mat_mult :: "complex list list \<Rightarrow> complex list list \<Rightarrow> complex list list" where
  "mat_mult A B =
     map (\<lambda>row. map (\<lambda>j. \<Sum>k\<leftarrow>[0..<length row]. row ! k * (B ! k) ! j)
                  [0..<(if B = [] then 0 else length (hd B))]) A"

definition identity_matrix :: "nat \<Rightarrow> complex list list" where
  "identity_matrix n = map (\<lambda>i. map (\<lambda>j. if i = j then 1 else 0) [0..<n]) [0..<n]"

section \<open>The interval diagram of the cover\<close>

text \<open>\<open>list.index\<close>: the first position of a value, \<open>ValueError\<close> when it is absent.\<close>

fun index_of :: "'a list \<Rightarrow> 'a \<Rightarrow> error + nat" where
  "index_of [] x = Inl ValueError"
| "index_of (y # ys) x = (if y = x then Inr 0 else map_sum id Suc (index_of ys x))"

text \<open>
  \<open>perm = lambda label : self._permut_cover[alphabet.rank(label)]\<close>, and the step
  \<open>d = perm(label).index(d) if j else perm(label)[d]\<close> across one occurrence.
\<close>

definition perm_of :: "PermutationCover \<Rightarrow> nat \<Rightarrow> error + int list" where
  "perm_of c label = getitem (permut_cover c) (int label)"

definition cross :: "PermutationCover \<Rightarrow> nat \<times> int \<Rightarrow> int \<Rightarrow> error + int" where
  "cross c occ d =
     (case perm_of c (fst occ) of Inl e \<Rightarrow> Inl e
      | Inr p \<Rightarrow> if snd occ \<noteq> 0 then map_sum id int (index_of p d) else getitem p d)"

text \<open>
  The body of \<open>for base_singularity in orbit\<close>, with the flag \<open>sign\<close> set: the triple
  \<open>(label, j, d)\<close> is appended and \<open>d\<close> moves on.
\<close>

definition turn ::
  "PermutationCover \<Rightarrow> (nat \<times> int \<times> int) list \<times> int \<Rightarrow> nat \<times> int \<Rightarrow>
   error + (nat \<times> int \<times> int) list \<times> int" where
  "turn c st occ =
     (case cross c occ (snd st) of Inl e \<Rightarrow> Inl e
      | Inr d' \<Rightarrow> Inr (fst st @ [(fst occ, snd occ, snd st)], d'))"

text \<open>
  The loop \<open>while True\<close>: one pass over the orbit, then \<open>break\<close> when \<open>d\<close> is back at
  \<open>d_init\<close>; otherwise \<open>cover_copies.remove(d)\<close>, which raises \<open>KeyError\<close> when \<open>d\<close> is
  not in the set. The set of pending copies is the list of its elements in pop order. The
  loop ends on every input: a pass that does not close removes a copy from a finite set.
\<close>

function follow ::
  "PermutationCover \<Rightarrow> (nat \<times> int) list \<Rightarrow> int \<Rightarrow> int list \<Rightarrow>
   (nat \<times> int \<times> int) list \<times> int \<Rightarrow> error + (nat \<times> int \<times> int) list \<times> int list" where
  "follow c orbit d_init cover_copies st =
     (case for_loop (turn c) orbit st of Inl e \<Rightarrow> Inl e
      | Inr st' \<Rightarrow>
          if snd st' = d_init then Inr (fst st', cover_copies)
          else if snd st' \<notin> set cover_copies then Inl KeyError
          else follow c orbit d_init (remove1 (snd st') cover_copies) st')"
  by pat_completeness auto
termination
proof (relation "measure (\<lambda>(c, orbit, d_init, cover_copies, st). length cover_copies)")
  show "wf (measure (\<lambda>(c, orbit, d_init, cover_copies, st). length cover_copies))" by simp
next
  fix c :: PermutationCover and orbit :: "(nat \<times> int) list" and d_init :: int
    and cover_copies :: "int list" and st x2 :: "(nat \<times> int \<times> int) list \<times> int"
  assume "\<not> snd x2 \<notin> set cover_copies"
  then have "0 < length cover_copies" "snd x2 \<in> set cover_copies"
    by (auto dest: length_pos_if_in_set)
  then show "((c, orbit, d_init, remove1 (snd x2) cover_copies, x2),
              (c, orbit, d_init, cover_copies, st))
             \<in> measure (\<lambda>(c, orbit, d_init, cover_copies, st). length cover_copies)"
    by (simp add: length_remove1)
qed

declare follow.simps [simp del]

text \<open>
  The loop \<open>while cover_copies\<close>: pop a copy, follow its orbit, append the singularity.
\<close>

function lift ::
  "PermutationCover \<Rightarrow> (nat \<times> int) list \<Rightarrow> int list \<Rightarrow> error + (nat \<times> int \<times> int) list list" where
  "lift c orbit [] = Inr []"
| "lift c orbit (d_init # cover_copies) =
     (case follow c orbit d_init cover_copies ([], d_init) of Inl e \<Rightarrow> Inl e
      | Inr res \<Rightarrow>
          (case lift c orbit (snd res) of Inl e \<Rightarrow> Inl e
           | Inr singularities \<Rightarrow> Inr (fst res # singularities)))"
  by pat_completeness auto
termination
proof (relation "measure (\<lambda>(c, orbit, cover_copies). length cover_copies)")
  show "wf (measure (\<lambda>(c, orbit, cover_copies). length cover_copies))" by simp
next
  fix c :: PermutationCover and orbit :: "(nat \<times> int) list" and d_init :: int
    and cover_copies :: "int list" and res :: "(nat \<times> int \<times> int) list \<times> int list"
  assume res: "follow c orbit d_init cover_copies ([], d_init) = Inr res"
  have shorter: "length rest \<le> length copies"
    if "follow c orbit d_init copies st = Inr (sing, rest)" for copies st sing rest
    using that
  proof (induction c orbit d_init copies st rule: follow.induct)
    case (1 c orbit d_init cover_copies st)
    note unfold = follow.simps[of c orbit d_init cover_copies st]
    show ?case
    proof (cases "for_loop (turn c) orbit st")
      case (Inl e)
      with "1.prems" show ?thesis unfolding unfold by simp
    next
      case (Inr st')
      show ?thesis
      proof (cases "snd st' = d_init")
        case True
        with "1.prems" Inr show ?thesis unfolding unfold by simp
      next
        case False
        with "1.prems" Inr have mem: "snd st' \<in> set cover_copies"
          unfolding unfold by (auto split: if_splits)
        with "1.prems" Inr False
        have "follow c orbit d_init (remove1 (snd st') cover_copies) st' = Inr (sing, rest)"
          unfolding unfold by simp
        from "1.IH"[OF Inr False _ this] mem
        have "length rest \<le> length (remove1 (snd st') cover_copies)" by simp
        then show ?thesis by (simp add: length_remove1 split: if_splits)
      qed
    qed
  qed
  from shorter[of cover_copies "([], d_init)" "fst res" "snd res"] res
  show "((c, orbit, snd res), (c, orbit, d_init # cover_copies))
          \<in> measure (\<lambda>(c, orbit, cover_copies). length cover_copies)"
    by simp
qed

declare lift.simps [simp del]

text \<open>
  The body of \<open>for orbit in base_diagram\<close>. \<open>init_label = orbit[0][0]\<close> raises
  \<open>IndexError\<close> on an empty orbit. \<open>set(range(degree))\<close> holds small integers, which
  \<open>pop\<close> gives up in increasing order.
\<close>

definition singularities_over ::
  "PermutationCover \<Rightarrow> (nat \<times> int) list \<Rightarrow> error + (nat \<times> int \<times> int) list list" where
  "singularities_over c orbit =
     (if orbit = [] then Inl IndexError else lift c orbit (map int [0..<degree_cover c]))"

fun for_each :: "('a \<Rightarrow> error + 'b) \<Rightarrow> 'a list \<Rightarrow> error + 'b list" where
  "for_each f [] = Inr []"
| "for_each f (x # xs) =
     (case f x of Inl e \<Rightarrow> Inl e
      | Inr y \<Rightarrow> (case for_each f xs of Inl e \<Rightarrow> Inl e | Inr ys \<Rightarrow> Inr (y # ys)))"

text \<open>
  \<open>interval_diagram\<close>: the singularities over all base orbits. The argument \<open>glue_ends\<close> is
  not read. With \<open>sign\<close> unset the entries are the pairs \<open>(label, d)\<close>.
\<close>

definition interval_diagram ::
  "PermutationCover \<Rightarrow> bool \<Rightarrow> bool \<Rightarrow> error + (nat \<times> int option \<times> int) list list" where
  "interval_diagram c glue_ends sign =
     map_sum id
       (\<lambda>sss. map (map (\<lambda>t. (fst t, if sign then Some (fst (snd t)) else None, snd (snd t))))
                (concat sss))
       (for_each (singularities_over c) (diagram_unglued (base c)))"

text \<open>
  Notions for stating how the singularities cover the copies: the copies at which the
  passes of a singularity begin (its entries at the multiples of the length of the base
  orbit), the copies \<open>0 \<le> x < degree\<close>, an occurrence whose label carries a permutation of
  the copies, the copy reached after one pass, and after \<open>k\<close> passes.
\<close>

definition starts :: "nat \<Rightarrow> (nat \<times> int \<times> int) list \<Rightarrow> int list" where
  "starts n sing = map (\<lambda>i. snd (snd (sing ! (i * n)))) [0..<length sing div n]"

definition in_copies :: "nat \<Rightarrow> int \<Rightarrow> bool" where
  "in_copies n x \<longleftrightarrow> 0 \<le> x \<and> x < int n"

definition valid_occ :: "PermutationCover \<Rightarrow> nat \<times> int \<Rightarrow> bool" where
  "valid_occ c occ \<longleftrightarrow>
     fst occ < length (permut_cover c) \<and>
     mset (permut_cover c ! fst occ) = mset (map int [0..<degree_cover c])"

definition pass_copy :: "PermutationCover \<Rightarrow> (nat \<times> int) list \<Rightarrow> int \<Rightarrow> error + int" where
  "pass_copy c orbit x = map_sum id snd (for_loop (turn c) orbit ([], x))"

fun passes :: "PermutationCover \<Rightarrow> (nat \<times> int) list \<Rightarrow> nat \<Rightarrow> int \<Rightarrow> error + int" where
  "passes c orbit 0 x = Inr x"
| "passes c orbit (Suc k) x =
     (case pass_copy c orbit x of Inl e \<Rightarrow> Inl e | Inr y \<Rightarrow> passes c orbit k y)"

text \<open>
  Notions for stating that a singularity is a closed orbit of the copies: the triples that
  one pass from a copy appends, the triples appended by the passes from a list of copies, a
  list of copies that the passes lead through in turn and back to the first, and the lists of
  copies behind the singularities over a base orbit: each singularity is the trace of the
  passes of one closed orbit that begins at its least copy, the orbits hold every copy
  once, and they come in the order of their least copies.
\<close>

definition pass_trace ::
  "PermutationCover \<Rightarrow> (nat \<times> int) list \<Rightarrow> int \<Rightarrow> error + (nat \<times> int \<times> int) list" where
  "pass_trace c orbit x = map_sum id fst (for_loop (turn c) orbit ([], x))"

definition orbit_trace ::
  "PermutationCover \<Rightarrow> (nat \<times> int) list \<Rightarrow> int list \<Rightarrow> error + (nat \<times> int \<times> int) list" where
  "orbit_trace c orbit xs = map_sum id concat (for_each (pass_trace c orbit) xs)"

definition closed_orbit :: "PermutationCover \<Rightarrow> (nat \<times> int) list \<Rightarrow> int list \<Rightarrow> bool" where
  "closed_orbit c orbit xs \<longleftrightarrow>
     xs \<noteq> [] \<and>
     (\<forall>i\<in>{0..<length xs}. pass_copy c orbit (xs ! i) = Inr (xs ! (Suc i mod length xs)))"

definition lifted_orbits ::
  "PermutationCover \<Rightarrow> (nat \<times> int) list \<Rightarrow> (nat \<times> int \<times> int) list list \<Rightarrow>
   int list list \<Rightarrow> bool" where
  "lifted_orbits c orbit ss yss \<longleftrightarrow>
     map (orbit_trace c orbit) yss = map Inr ss \<and>
     (\<forall>ys\<in>set yss. closed_orbit c orbit ys \<and> (\<forall>x\<in>set ys. hd ys \<le> x)) \<and>
     mset (concat yss) = mset (map int [0..<degree_cover c]) \<and>
     sorted_wrt (<) (map hd yss)"


section \<open>Profile, genus and orientability\<close>

text \<open>
  The combinatorics library is a collaborator and not among the sources. Its permutations
  are modelled as lists of images counted from one:
  the constructor, which refuses a list that is not a permutation of \<open>1, \<dots>, n\<close>, the
  inverse, the product (left to right: \<open>p * q\<close> sends \<open>i\<close> to \<open>q(p(i))\<close>, the shorter factor
  padded with fixed points), the cycle type (the lengths of the cycles, largest first) and
  \<open>Partition\<close>, which drops zeros at the end of a list that does not increase.
\<close>

definition Permutation :: "int list \<Rightarrow> error + int list" where
  "Permutation l =
     (if mset l = mset (map int [1..<Suc (length l)]) then Inr l else Inl ValueError)"

text \<open>\<open>covering_data(label, list)\<close>.\<close>

definition covering_data :: "PermutationCover \<Rightarrow> nat \<Rightarrow> bool \<Rightarrow> error + int list" where
  "covering_data c label as_list =
     (case getitem (permut_cover c) (int label) of Inl e \<Rightarrow> Inl e
      | Inr pl \<Rightarrow> if as_list then Inr pl else Permutation (map (\<lambda>i. i + 1) pl))"

definition perm_apply :: "int list \<Rightarrow> int \<Rightarrow> int" where
  "perm_apply p i = p ! nat (i - 1)"

definition perm_inverse :: "int list \<Rightarrow> int list" where
  "perm_inverse q =
     map (\<lambda>v. case index_of q v of Inl e \<Rightarrow> 0 | Inr k \<Rightarrow> int k + 1)
       (map int [1..<Suc (length q)])"

definition perm_mult :: "int list \<Rightarrow> int list \<Rightarrow> int list" where
  "perm_mult lp rp =
     (let new_lp = lp @ map int [Suc (length lp)..<Suc (length rp)];
          new_rp = rp @ map int [Suc (length rp)..<Suc (length lp)]
      in map (perm_apply new_rp) new_lp)"

fun perm_orbit :: "nat \<Rightarrow> int list \<Rightarrow> int \<Rightarrow> int list" where
  "perm_orbit 0 p i = []"
| "perm_orbit (Suc k) p i = i # perm_orbit k p (perm_apply p i)"

definition cycle_of :: "int list \<Rightarrow> int \<Rightarrow> int list" where
  "cycle_of p i = i # takeWhile (\<lambda>j. j \<noteq> i) (perm_orbit (length p) p (perm_apply p i))"

definition cycle_type :: "int list \<Rightarrow> int list" where
  "cycle_type p =
     rev (sort (map (\<lambda>i. int (length (cycle_of p i)))
                 (filter (\<lambda>i. \<forall>j\<in>set (cycle_of p i). i \<le> j)
                    (map int [1..<Suc (length p)]))))"

definition Partition :: "int list \<Rightarrow> int list" where
  "Partition mu = filter (\<lambda>x. x \<noteq> 0) mu"

text \<open>
  \<open>profile\<close>. For each orbit of the glued base diagram: the occurrences of the glued
  entries are laid out in one list, the permutations of their labels (inverted where the
  sign is set) are multiplied from the identity, and each cycle of the product of length
  \<open>k\<close> gives the entry \<open>len(orbit) * k\<close>.
\<close>

definition flatten :: "diagram_entry list \<Rightarrow> (nat \<times> int) list" where
  "flatten orbit = concat (map (\<lambda>x. case x of Occ lab sign \<Rightarrow> [(lab, sign)] | Glued xs \<Rightarrow> xs) orbit)"

definition compose :: "PermutationCover \<Rightarrow> int list \<Rightarrow> nat \<times> int \<Rightarrow> error + int list" where
  "compose c p occ =
     (case covering_data c (fst occ) False of Inl e \<Rightarrow> Inl e
      | Inr q \<Rightarrow> Inr (perm_mult p (if snd occ \<noteq> 0 then perm_inverse q else q)))"

definition profile_orbit :: "PermutationCover \<Rightarrow> int list \<Rightarrow> diagram_entry list \<Rightarrow> error + int list" where
  "profile_orbit c s orbit =
     (case for_loop (compose c) (flatten orbit) (map int [1..<Suc (degree_cover c)]) of
        Inl e \<Rightarrow> Inl e
      | Inr p \<Rightarrow> Inr (s @ map (\<lambda>k. int (length orbit) * k) (cycle_type p)))"

definition profile :: "PermutationCover \<Rightarrow> error + int list" where
  "profile c =
     map_sum id (\<lambda>s. Partition (rev (sort s)))
       (for_loop (profile_orbit c) (diagram_glued (base c)) [])"

text \<open>
  \<open>genus\<close>: \<open>Integer((sum(p) - 2*len(p))/4 + 1)\<close>. The quotient is read as the exact one
  of the library's integers, on which \<open>Integer\<close> raises \<open>TypeError\<close> when it is a fraction.
\<close>

definition genus :: "PermutationCover \<Rightarrow> error + int" where
  "genus c =
     (case profile c of Inl e \<Rightarrow> Inl e
      | Inr p \<Rightarrow>
          if (sum_list p - 2 * int (length p)) mod 4 = 0
          then Inr ((sum_list p - 2 * int (length p)) div 4 + 1)
          else Inl TypeError)"

text \<open>
  \<open>is_orientable\<close>. \<open>propagate\<close> is the loop \<open>for j in inv_letters\<close> for the copy \<open>i\<close>
  of sign \<open>s\<close>; it gives \<open>None\<close> where the source returns \<open>False\<close>. \<open>unfold_signs\<close> is the
  loop \<open>while todo\<close>, which pops the last element. It ends on every input: each turn
  takes one copy from \<open>todo\<close> and adds a copy only when it gives it a sign.
\<close>

fun propagate ::
  "int list list \<Rightarrow> int \<Rightarrow> int \<Rightarrow> nat list \<Rightarrow> int option list \<Rightarrow> int list \<Rightarrow>
   error + (int option list \<times> int list) option" where
  "propagate pc i s [] signs todo = Inr (Some (signs, todo))"
| "propagate pc i s (j # js) signs todo =
     (case getitem pc (int j) of Inl e \<Rightarrow> Inl e | Inr pj \<Rightarrow>
      case getitem pj i of Inl e \<Rightarrow> Inl e | Inr ii \<Rightarrow>
      case getitem signs ii of Inl e \<Rightarrow> Inl e
      | Inr None \<Rightarrow>
          (case setitem signs ii (Some (- s)) of Inl e \<Rightarrow> Inl e
           | Inr signs' \<Rightarrow> propagate pc i s js signs' (todo @ [ii]))
      | Inr (Some t) \<Rightarrow> if t \<noteq> - s then Inr None else propagate pc i s js signs todo)"

definition pending :: "int option list \<Rightarrow> nat" where
  "pending signs = length (filter (\<lambda>x. x = None) signs)"

function unfold_signs ::
  "int list list \<Rightarrow> nat list \<Rightarrow> int option list \<Rightarrow> int list \<Rightarrow> error + bool" where
  "unfold_signs pc inv_letters signs todo =
     (if todo = [] then Inr True
      else
        (case getitem signs (last todo) of Inl e \<Rightarrow> Inl e
         | Inr None \<Rightarrow> Inl AssertionError
         | Inr (Some s) \<Rightarrow>
             (case propagate pc (last todo) s inv_letters signs (butlast todo) of Inl e \<Rightarrow> Inl e
              | Inr None \<Rightarrow> Inr False
              | Inr (Some st) \<Rightarrow> unfold_signs pc inv_letters (fst st) (snd st))))"
  by pat_completeness auto
termination
proof (relation "measure (\<lambda>(pc, inv_letters, signs, todo). 2 * pending signs + length todo)")
  show "wf (measure (\<lambda>(pc, inv_letters, signs, todo). 2 * pending signs + length todo))"
    by simp
next
  fix pc :: "int list list" and inv_letters :: "nat list" and signs :: "int option list"
    and todo :: "int list" and x2 :: "int option" and s :: int
    and x2b :: "(int option list \<times> int list) option" and st :: "int option list \<times> int list"
  assume ne: "todo \<noteq> []"
    and run: "propagate pc (last todo) s inv_letters signs (butlast todo) = Inr x2b"
    and some: "x2b = Some st"
  have step: "2 * pending sg' + length td' \<le> 2 * pending sg + length td"
    if "propagate pc i s js sg td = Inr (Some (sg', td'))" for i js sg td sg' td'
    using that
  proof (induction js arbitrary: sg td)
    case Nil
    then show ?case by simp
  next
    case (Cons j js)
    from Cons.prems obtain pj where pj: "getitem pc (int j) = Inr pj"
      by (cases "getitem pc (int j)") auto
    from Cons.prems pj obtain ii where ii: "getitem pj i = Inr ii"
      by (cases "getitem pj i") auto
    from Cons.prems pj ii obtain cur where cur: "getitem sg ii = Inr cur"
      by (cases "getitem sg ii") auto
    show ?case
    proof (cases cur)
      case None
      from Cons.prems pj ii cur None obtain sg1 where
        sg1: "setitem sg ii (Some (- s)) = Inr sg1"
        by (cases "setitem sg ii (Some (- s))") auto
      with Cons.prems pj ii cur None
      have rec: "propagate pc i s js sg1 (td @ [ii]) = Inr (Some (sg', td'))" by simp
      from cur obtain k where pk: "py_pos (length sg) ii = Inr k" "sg ! k = cur"
        by (cases "py_pos (length sg) ii") (auto simp: getitem_def)
      from pk(1) have "k < length sg"
        by (auto simp: py_pos_def split: if_splits)
      with pk None sg1 have k: "k < length sg" "sg ! k = None" "sg1 = sg[k := Some (- s)]"
        by (auto simp: setitem_def)
      have "pending sg = Suc (pending sg1)"
      proof -
        from k(1,2) have a: "sg = take k sg @ None # drop (Suc k) sg"
          by (metis id_take_nth_drop)
        from k(1,3) have b: "sg1 = take k sg @ Some (- s) # drop (Suc k) sg"
          by (simp add: upd_conv_take_nth_drop)
        have "pending (take k sg @ None # drop (Suc k) sg) =
                Suc (pending (take k sg @ Some (- s) # drop (Suc k) sg))"
          by (simp add: pending_def)
        with arg_cong[OF a, of pending] arg_cong[OF b, of pending] show ?thesis by simp
      qed
      with Cons.IH[OF rec] show ?thesis by simp
    next
      case (Some t)
      with Cons.prems pj ii cur have "propagate pc i s js sg td = Inr (Some (sg', td'))"
        by (auto split: if_splits)
      from Cons.IH[OF this] show ?thesis .
    qed
  qed
  from step[of "last todo" inv_letters signs "butlast todo" "fst st" "snd st"] run some ne
  show "((pc, inv_letters, fst st, snd st), (pc, inv_letters, signs, todo))
          \<in> measure (\<lambda>(pc, inv_letters, signs, todo). 2 * pending signs + length todo)"
    by (cases todo rule: rev_cases) (auto simp: case_prod_beta)
qed

declare unfold_signs.simps [simp del]

text \<open>
  The labels that appear on one line only, \<open>p0.symmetric_difference(p1)\<close>; a set of small
  integers, read in increasing order.
\<close>

definition inv_letters :: "base_permutation \<Rightarrow> nat list" where
  "inv_letters b =
     sort (remdups (filter (\<lambda>a. a \<notin> set (line1 b)) (line0 b) @
                    filter (\<lambda>a. a \<notin> set (line0 b)) (line1 b)))"

definition is_orientable :: "PermutationCover \<Rightarrow> error + bool" where
  "is_orientable c =
     (if is_iet (base c) then Inr True
      else
        (case profile c of Inl e \<Rightarrow> Inl e
         | Inr p \<Rightarrow>
             if \<exists>x\<in>set p. x mod 2 \<noteq> 0 then Inr False
             else unfold_signs (permut_cover c) (inv_letters (base c))
                    (Some 1 # replicate (degree_cover c - 1) None) [0]))"

section \<open>The homology matrices\<close>

text \<open>
  \<open>homology_cycle_matrix\<close>. \<open>sing_index\<close> is the loop
  \<open>while i < nb_sing and not any((a,0,d) == sing for sing in singularities[i]): i += 1\<close>:
  the first singularity that holds the triple, or \<open>nb_sing\<close>. \<open>border_side\<close> is the body of
  the two nested \<open>for\<close> statements over \<open>d\<close> and \<open>a\<close>; \<open>border_side[i] = 1\<close> raises \<open>IndexError\<close> when no
  singularity holds the triple. \<open>cycle_borders\<close> is the list \<open>borders\<close>, one row for each
  pair \<open>(d, a)\<close> in the order of \<open>rel_homology_generator\<close>, one column for each
  singularity.
\<close>

fun sing_index :: "'a \<Rightarrow> 'a list list \<Rightarrow> nat" where
  "sing_index x [] = 0"
| "sing_index x (s # ss) = (if x \<in> set s then 0 else Suc (sing_index x ss))"

definition border_side ::
  "(nat \<times> int option \<times> int) list list \<Rightarrow> nat \<times> nat \<Rightarrow> error + int list" where
  "border_side singularities da =
     (let nb_sing = length singularities;
          i = sing_index (snd da, Some 0, int (fst da)) singularities;
          j = sing_index (snd da, Some 1, int (fst da)) singularities
      in
      case setitem (replicate nb_sing 0) (int i) 1 of Inl e \<Rightarrow> Inl e | Inr b1 \<Rightarrow>
      case setitem b1 (int j) (- 1) of Inl e \<Rightarrow> Inl e | Inr b2 \<Rightarrow>
      if i = j \<and> i < nb_sing then setitem b2 (int j) 0 else Inr b2)"

definition cycle_borders :: "PermutationCover \<Rightarrow> error + int list list" where
  "cycle_borders c =
     (case interval_diagram c False True of Inl e \<Rightarrow> Inl e
      | Inr singularities \<Rightarrow> for_each (border_side singularities) (rel_homology_generator c))"

text \<open>
  Modelled from the spec: \<open>Matrix(borders).left_kernel().matrix()\<close> and \<open>rank()\<close> belong to
  the linear algebra library, which is not among the sources. The spec has the first
  "return an exact basis of their left null space (kernel)". The model eliminates column
  after column on the rows of the matrix, each carried with the combination of the
  original rows that it is (at first a unit vector); the combinations whose row has become
  zero are the basis. The rank is the number of rows less the dimension of the left
  kernel.
\<close>

definition reduce_row :: "nat \<Rightarrow> 'a::field list \<times> 'a list \<Rightarrow> 'a list \<times> 'a list \<Rightarrow> 'a list \<times> 'a list" where
  "reduce_row j piv r =
     (let f = fst r ! j / fst piv ! j
      in (map2 (\<lambda>x y. x - f * y) (fst r) (fst piv), map2 (\<lambda>x y. x - f * y) (snd r) (snd piv)))"

fun eliminate :: "nat list \<Rightarrow> ('a::field list \<times> 'a list) list \<Rightarrow> ('a list \<times> 'a list) list" where
  "eliminate [] rows = rows"
| "eliminate (j # js) rows =
     (case find (\<lambda>r. fst r ! j \<noteq> 0) rows of
        None \<Rightarrow> eliminate js rows
      | Some piv \<Rightarrow> eliminate js (map (reduce_row j piv) (remove1 piv rows)))"

definition unit_rows :: "nat \<Rightarrow> 'a::field list list" where
  "unit_rows n = map (\<lambda>i. map (\<lambda>k. if k = i then 1 else 0) [0..<n]) [0..<n]"

definition left_kernel :: "'a::field list list \<Rightarrow> 'a list list" where
  "left_kernel M =
     map snd
       (filter (\<lambda>r. \<forall>x\<in>set (fst r). x = 0)
          (eliminate [0..<(if M = [] then 0 else length (hd M))]
             (zip M (unit_rows (length M)))))"

definition matrix_rank :: "'a::field list list \<Rightarrow> nat" where
  "matrix_rank M = length M - length (left_kernel M)"

definition homology_cycle_matrix :: "PermutationCover \<Rightarrow> error + rat list list" where
  "homology_cycle_matrix c =
     map_sum id (\<lambda>borders. left_kernel (map (map of_int) borders)) (cycle_borders c)"

text \<open>
  \<open>homology_boundary_matrix\<close>: \<open>boundary_entry\<close> is the body of the loop over the
  positions \<open>j\<close> of the line \<open>i\<close>, for the copy \<open>d\<close>.
\<close>

definition boundary_entry ::
  "PermutationCover \<Rightarrow> nat \<Rightarrow> nat \<Rightarrow> int list \<Rightarrow> nat \<Rightarrow> error + int list" where
  "boundary_entry c d i border j =
     (let line = (if i = 0 then line0 (base c) else line1 (base c));
          flags = (if i = 0 then fst (twin_to_index (base c)) else snd (twin_to_index (base c)))
      in
      case getitem flags (int j) of Inl e \<Rightarrow> Inl e | Inr flag \<Rightarrow>
      if flag \<noteq> 0 then setitem border (rel_homology_index c (int d) (line ! j)) 1
      else
        (case covering_data c (line ! j) True of Inl e \<Rightarrow> Inl e | Inr perm_cover \<Rightarrow>
         case getitem perm_cover (int d) of Inl e \<Rightarrow> Inl e | Inr d' \<Rightarrow>
         setitem border (rel_homology_index c d' (line ! j)) (- 1)))"

definition boundary_row :: "PermutationCover \<Rightarrow> nat \<Rightarrow> error + int list" where
  "boundary_row c d =
     (case for_loop (boundary_entry c d 0) [0..<length (line0 (base c))]
             (replicate (length (rel_homology_generator c)) 0) of
        Inl e \<Rightarrow> Inl e
      | Inr border \<Rightarrow> for_loop (boundary_entry c d 1) [0..<length (line1 (base c))] border)"

definition homology_boundary_matrix :: "PermutationCover \<Rightarrow> error + int list list" where
  "homology_boundary_matrix c = for_each (boundary_row c) [0..<degree_cover c]"

text \<open>
  The invariant of the elimination: the first component of a row is the combination of
  the rows of the matrix that its second component gives.
\<close>

definition row_ok :: "'a::field list list \<Rightarrow> nat \<Rightarrow> 'a list \<times> 'a list \<Rightarrow> bool" where
  "row_ok M m r \<longleftrightarrow>
     length (fst r) = m \<and> length (snd r) = length M \<and>
     (\<forall>j<m. fst r ! j = (\<Sum>k<length M. snd r ! k * M ! k ! j))"

section \<open>The Lyapunov exponents\<close>

text \<open>
  \<open>stratum\<close>, which \<open>lyapunov_exponents_H_plus\<close> writes out when \<open>verbose\<close> is set. The
  two constructors stand for the strata of the collaborator.
\<close>

datatype stratum = AbelianStratum "int list" | QuadraticStratum "int list"

definition stratum :: "PermutationCover \<Rightarrow> error + stratum" where
  "stratum c =
     (case is_orientable c of Inl e \<Rightarrow> Inl e
      | Inr orientable \<Rightarrow>
          (case profile c of Inl e \<Rightarrow> Inl e
           | Inr p \<Rightarrow>
               Inr (if orientable then AbelianStratum (map (\<lambda>x. (x - 2) div 2) p)
                    else QuadraticStratum (map (\<lambda>x. x - 2) p))))"

text \<open>
  The arguments of \<open>lyapunov_exponents_H_plus\<close> (the output file is not modelled), and
  the arguments with which it calls \<open>lyapunov_exponents_H_plus_cover\<close> of the numeric
  engine. The method returns \<open>[]\<close> before the call or goes on to the call; what it then
  computes from the engine's samples is floating point and is not modelled.
\<close>

record lyapunov_arguments =
  nb_vectors :: "int option"
  nb_experiments :: int
  nb_iterations :: int
  lengths :: "int list option"
  return_speed :: bool
  isotypic_decomposition :: bool
  return_char :: bool
  verbose :: bool

record engine_call =
  engine_gp :: "int list"
  engine_k :: int
  engine_twin :: "int list"
  engine_sigma :: "int list"
  engine_experiments :: int
  engine_iterations :: int
  engine_dimensions :: "int list"
  engine_projections :: "real list option"
  engine_lengths :: "int list option"
  engine_verbose :: bool

datatype lyapunov_outcome = Empty_result | Engine engine_call

text \<open>
  The tables \<open>gp\<close> and \<open>twin\<close> over the occurrences, with \<open>convert((i,j)) = j + i*k\<close>.
\<close>

definition fill_occurrence ::
  "PermutationCover \<Rightarrow> nat \<Rightarrow> int list \<times> int list \<Rightarrow> nat \<Rightarrow> error + int list \<times> int list" where
  "fill_occurrence c i tables j =
     (let k = int (length (line0 (base c)));
          line = (if i = 0 then line0 (base c) else line1 (base c));
          base_twin = (if i = 0 then fst (twin (base c)) else snd (twin (base c)));
          pos = int j + int i * k
      in
      case setitem (fst tables) pos (int (line ! j)) of Inl e \<Rightarrow> Inl e | Inr gp' \<Rightarrow>
      case getitem base_twin (int j) of Inl e \<Rightarrow> Inl e | Inr t \<Rightarrow>
      case setitem (snd tables) pos
             (case t of TwinInt b \<Rightarrow> b + (1 - int i) * k | TwinPair a b \<Rightarrow> b + a * k) of
        Inl e \<Rightarrow> Inl e
      | Inr twin' \<Rightarrow> Inr (gp', twin'))"

definition occurrence_tables :: "PermutationCover \<Rightarrow> error + int list \<times> int list" where
  "occurrence_tables c =
     (let n = length_base (base c) in
      case for_loop (fill_occurrence c 0) [0..<length (line0 (base c))]
             (map int [0..<2 * n], map int [0..<2 * n]) of
        Inl e \<Rightarrow> Inl e
      | Inr tables \<Rightarrow> for_loop (fill_occurrence c 1) [0..<length (line1 (base c))] tables)"

text \<open>
  The isotypic decomposition: for each real character the dimension
  \<open>((H*M).rank() - (B*M).rank()) // 2\<close>, asserted even, and the real parts of the entries
  of \<open>M\<close>, stored transposed.
\<close>

definition store_projection ::
  "complex list list \<Rightarrow> nat \<Rightarrow> nat \<Rightarrow> real list \<Rightarrow> nat \<times> nat \<Rightarrow> error + real list" where
  "store_projection M i_char size_of_matrix projs ij =
     (case getitem M (int (snd ij)) of Inl e \<Rightarrow> Inl e | Inr row \<Rightarrow>
      case getitem row (int (fst ij)) of Inl e \<Rightarrow> Inl e | Inr z \<Rightarrow>
      setitem projs
        (int (i_char * size_of_matrix ^ 2 + fst ij * size_of_matrix + snd ij)) (Re z))"

definition isotypic_component ::
  "provider \<Rightarrow> PermutationCover \<Rightarrow> int list \<times> real list \<Rightarrow> nat \<Rightarrow>
   error + int list \<times> real list" where
  "isotypic_component P c st i_char =
     (let size_of_matrix = length (rel_homology_generator c) in
      case isotypic_projection_matrix P c (int i_char) of Inl e \<Rightarrow> Inl e | Inr M \<Rightarrow>
      case homology_cycle_matrix c of Inl e \<Rightarrow> Inl e | Inr H \<Rightarrow>
      case homology_boundary_matrix c of Inl e \<Rightarrow> Inl e | Inr B \<Rightarrow>
      (let dimension = int (matrix_rank (mat_mult (map (map of_rat) H) M)) -
                       int (matrix_rank (mat_mult (map (map of_int) B) M))
       in
       if dimension mod 2 \<noteq> 0 then Inl AssertionError
       else
         (case setitem (fst st) (int i_char) (dimension div 2) of Inl e \<Rightarrow> Inl e
          | Inr dims \<Rightarrow>
              (case for_loop (store_projection M i_char size_of_matrix)
                      (concat (map (\<lambda>i. map (\<lambda>j. (i, j)) [0..<size_of_matrix])
                                 [0..<size_of_matrix]))
                      (snd st) of
                 Inl e \<Rightarrow> Inl e
               | Inr projs \<Rightarrow> Inr (dims, projs)))))"

definition isotypic_data :: "provider \<Rightarrow> PermutationCover \<Rightarrow> error + int list \<times> real list" where
  "isotypic_data P c =
     (case n_characters P of Inl e \<Rightarrow> Inl e
      | Inr n \<Rightarrow>
          for_loop (isotypic_component P c) [0..<n]
            (map int [0..<n],
             map real [0..<length (rel_homology_generator c) ^ 2 * n]))"

text \<open>
  \<open>lyapunov_exponents_H_plus\<close>, up to the call of the engine. \<open>ValueError\<close> is the
  invalid-argument error of the spec. The ninth argument of the call is the literal
  \<open>None\<close> of the source.
\<close>

definition lyapunov_exponents_H_plus ::
  "provider \<Rightarrow> PermutationCover \<Rightarrow> lyapunov_arguments \<Rightarrow> error + lyapunov_outcome" where
  "lyapunov_exponents_H_plus P c a =
     (let n = int (length_base (base c)) in
      case (case nb_vectors a of None \<Rightarrow> genus c | Some v \<Rightarrow> Inr v) of Inl e \<Rightarrow> Inl e
      | Inr v \<Rightarrow>
      (let sigma = concat (permut_cover c) in
       case (if verbose a then map_sum id (\<lambda>s. ()) (stratum c) else Inr ()) of Inl e \<Rightarrow> Inl e
       | Inr u \<Rightarrow>
       if v < 0 then Inl ValueError
       else if v = 0 then Inr Empty_result
       else if nb_experiments a \<le> 0 then Inl ValueError
       else if nb_iterations a \<le> 0 then Inl ValueError
       else if n = 0 then Inl ZeroDivisionError
       else if int (length sigma) mod n \<noteq> 0 then Inl ValueError
       else
         (case occurrence_tables c of Inl e \<Rightarrow> Inl e | Inr tables \<Rightarrow>
          case (if isotypic_decomposition a
                then map_sum id (\<lambda>dp. (fst dp, Some (snd dp))) (isotypic_data P c)
                else Inr ([v], None)) of
            Inl e \<Rightarrow> Inl e
          | Inr dp \<Rightarrow>
              Inr (Engine
                \<lparr>engine_gp = fst tables, engine_k = int (length (line0 (base c))),
                 engine_twin = snd tables, engine_sigma = sigma,
                 engine_experiments = nb_experiments a,
                 engine_iterations = nb_iterations a,
                 engine_dimensions = fst dp, engine_projections = snd dp,
                 engine_lengths = None, engine_verbose = verbose a\<rparr>))))"

section \<open>Examples\<close>

text \<open>
  The base \<open>GeneralizedPermutation('a a b', 'b c c')\<close> of the docstrings, with the labels
  \<open>a\<close>, \<open>b\<close>, \<open>c\<close> of ranks 0, 1, 2. Its four singularities have angle \<open>\<pi>\<close>: the interval
  diagram has four orbits, two of them made of two occurrences glued at an end of the lines.
\<close>

definition base_aab_bcc :: base_permutation where
  "base_aab_bcc =
     \<lparr>is_iet = False, is_irreducible = True, alphabet_size = 3, length_base = 3,
      line0 = [0, 0, 1], line1 = [1, 2, 2],
      twin = ([TwinPair 0 1, TwinPair 0 0, TwinPair 1 0],
              [TwinPair 0 2, TwinPair 1 2, TwinPair 1 1]),
      twin_to_index = ([0, 1, 0], [1, 0, 1]),
      diagram_glued =
        [[Glued [(0, 0), (1, 0)]], [Occ 0 1], [Glued [(1, 1), (2, 1)]], [Occ 2 0]],
      diagram_unglued = [[(0, 0), (1, 0)], [(0, 1)], [(1, 1), (2, 1)], [(2, 0)]]\<rparr>"

text \<open>
  The cover of degree 3 with \<open>(1,2)\<close>, \<open>(1,3)\<close> and \<open>()\<close> over \<open>a\<close>, \<open>b\<close>, \<open>c\<close>. The
  permutations generate the symmetric group on the three copies, whose centralizer is
  trivial: the provider returns a group of order one, its only character and its only
  element.
\<close>

definition cover_s3 :: PermutationCover where
  "cover_s3 =
     \<lparr>base = base_aab_bcc, degree_cover = 3,
      permut_cover = [[1, 0, 2], [2, 1, 0], [0, 1, 2]]\<rparr>"

definition gap_trivial :: provider where
  "gap_trivial =
     \<lparr>Order = 1, Irr = [[1]], Degree = (\<lambda>chi. 1), ListPerm = [[1, 2, 3]],
      set_order = remdups\<rparr>"

text \<open>
  The cyclic group of order 4, the automorphism group of a cover of degree 4 whose labels
  carry powers of one cycle of length 4. The group is abelian: its conjugacy classes are its
  four elements, and its four irreducible characters send a generator to \<open>1\<close>, \<open>\<i>\<close>, \<open>-1\<close>
  and \<open>-\<i>\<close>. The second and the fourth are conjugate and not real.
\<close>

definition gap_c4 :: provider where
  "gap_c4 =
     \<lparr>Order = 4,
      Irr = [[1, 1, 1, 1], [1, \<i>, - 1, - \<i>], [1, - 1, 1, - 1], [1, - \<i>, - 1, \<i>]],
      Degree = (\<lambda>chi. 1),
      ListPerm = [[1, 2, 3, 4], [2, 3, 4, 1], [3, 4, 1, 2], [4, 1, 2, 3]],
      set_order = rev\<rparr>"

text \<open>
  The base \<open>iet.Permutation('a b', 'b a')\<close> and its covers by \<open>(1,2)\<close>, \<open>(1,3)\<close> and by
  \<open>(1,2,3)\<close>, \<open>(1,4)\<close>, whose profiles are \<open>[6]\<close> and \<open>[6, 2]\<close> in the docstring of
  \<open>profile\<close>. The interval diagram has one orbit: the four occurrences, glued two by two
  at the ends of the lines.
\<close>

definition base_ab_ba :: base_permutation where
  "base_ab_ba =
     \<lparr>is_iet = True, is_irreducible = True, alphabet_size = 2, length_base = 2,
      line0 = [0, 1], line1 = [1, 0],
      twin = ([TwinInt 1, TwinInt 0], [TwinInt 1, TwinInt 0]),
      twin_to_index = ([0, 0], [1, 1]),
      diagram_glued = [[Glued [(1, 1), (0, 1)], Glued [(1, 0), (0, 0)]]],
      diagram_unglued = [[(0, 0), (1, 1), (0, 1), (1, 0)]]\<rparr>"

definition cover_ab_s3 :: PermutationCover where
  "cover_ab_s3 = \<lparr>base = base_ab_ba, degree_cover = 3, permut_cover = [[1, 0, 2], [2, 1, 0]]\<rparr>"

definition cover_ab_s4 :: PermutationCover where
  "cover_ab_s4 = \<lparr>base = base_ab_ba, degree_cover = 4, permut_cover = [[1, 2, 0, 3], [3, 1, 2, 0]]\<rparr>"

text \<open>
  Covers of degree 2 of \<open>GeneralizedPermutation('a a b', 'b c c')\<close>: the cover by \<open>(1,2)\<close>,
  \<open>()\<close>, \<open>(1,2)\<close> of the docstrings, which is orientable and of genus 1, and the trivial
  cover, two copies of the base.
\<close>

definition cover_orientable :: PermutationCover where
  "cover_orientable =
     \<lparr>base = base_aab_bcc, degree_cover = 2, permut_cover = [[1, 0], [0, 1], [1, 0]]\<rparr>"


text \<open>
  The automorphism group of a cover of degree 2 is the group of order 2; the default
  arguments of \<open>lyapunov_exponents_H_plus\<close>; and a cover that lacks the permutation of the
  label \<open>c\<close>.
\<close>

definition gap_c2 :: provider where
  "gap_c2 =
     \<lparr>Order = 2, Irr = [[1, 1], [1, - 1]], Degree = (\<lambda>chi. 1), ListPerm = [[1, 2], [2, 1]],
      set_order = remdups\<rparr>"

definition default_arguments :: lyapunov_arguments where
  "default_arguments =
     \<lparr>nb_vectors = None, nb_experiments = 100, nb_iterations = 32768, lengths = None,
      return_speed = False, isotypic_decomposition = False, return_char = False,
      verbose = False\<rparr>"


definition cover_short :: PermutationCover where
  "cover_short = \<lparr>base = base_aab_bcc, degree_cover = 2, permut_cover = [[1, 0], [0, 1]]\<rparr>"

section \<open>Properties of the isotypic projection\<close>

lemma characters_gap_trivial:
  "characters gap_trivial =
     Inr \<lparr>real_character_table = [[1]], character_degree = [1], G_order = 1,
          perm = [[0, 1, 2]], n_real_characters = 1\<rparr>"
  by (simp add: characters_def gap_trivial_def is_real_def)

lemma projection_cover_s3:
  "isotypic_projection_matrix gap_trivial cover_s3 0 =
     Inr [[0, 0, 0, 0, 0, 0, 1, 0, 0],
          [0, 0, 0, 0, 0, 0, 0, 1, 0],
          [0, 0, 0, 0, 0, 0, 0, 0, 1],
          [1, 0, 0, 0, 0, 0, 0, 0, 0],
          [0, 1, 0, 0, 0, 0, 0, 0, 0],
          [0, 0, 1, 0, 0, 0, 0, 0, 0],
          [0, 0, 0, 1, 0, 0, 0, 0, 0],
          [0, 0, 0, 0, 1, 0, 0, 0, 0],
          [0, 0, 0, 0, 0, 1, 0, 0, 0]]"
  by (simp add: isotypic_projection_matrix_def characters_gap_trivial
      rel_homology_generator_def cover_s3_def base_aab_bcc_def
      upt_rec[of _ "numeral _"] upt_rec[of 0 "Suc 0"]
      getitem_def setitem_def py_pos_def add_term_def)

text \<open>
  C1. The claim: every \<open>isotypic_projection_matrix(i)\<close> is idempotent, and the matrices of
  all real characters add up to the identity matrix of size \<open>degree * |alphabet|\<close>. On the
  cover of degree 3 above the group has one real character, so the sum is the one matrix
  \<open>isotypic_projection_matrix(0)\<close>. The source reads \<open>perm[t][d-1]\<close> where its docstring has
  the image of \<open>d\<close>, and the matrix it returns moves every copy to the copy before it: it is
  neither idempotent nor the identity.
\<close>

theorem isotypic_projection_not_idempotent:
  "n_characters gap_trivial = Inr 1 \<and>
   map_sum id (\<lambda>M. (mat_mult M M = M, M = identity_matrix 9))
     (isotypic_projection_matrix gap_trivial cover_s3 0) = Inr (False, False)"
  unfolding projection_cover_s3
  by (simp add: n_characters_def characters_gap_trivial mat_mult_def identity_matrix_def
      upt_rec[of _ "numeral _"])

text \<open>
  C2. The claim: the entry at row \<open>(d, a)\<close> and column \<open>(d', a')\<close> is zero when \<open>a \<noteq> a'\<close>,
  and for \<open>a = a'\<close> it is the sum of \<open>(degree_i / |G|) * character_i(t)\<close> over the elements
  \<open>t\<close> whose permutation maps \<open>d\<close> to \<open>d'\<close>. On the cover of degree 3 above the only element
  is the identity, so the claim gives 1 at row \<open>(0, a)\<close>, column \<open>(0, a)\<close> and 0 at row
  \<open>(0, a)\<close>, column \<open>(2, a)\<close>, which are the entries 0 and 6 of row 0. The source returns 0
  and 1 there.
\<close>

theorem isotypic_projection_entry_shifted:
  "map_sum id (\<lambda>M. (M ! 0 ! 0, M ! 0 ! 6))
     (isotypic_projection_matrix gap_trivial cover_s3 0) = Inr (0, 1)"
  unfolding projection_cover_s3 by simp

section \<open>Properties of the characters\<close>

text \<open>
  What the folding does to a set in which every character that is not real has
  \<open>n_characters\<close> values, whatever the pop order: a real character is emitted as it is; a
  character that is not real has its conjugate in the set and the sum of the two is
  emitted; nothing else is emitted; and a pair counts for one row.
\<close>

lemma self_conjugate_cnj: "self_conjugate (map cnj chi) = self_conjugate chi"
  by (auto simp: self_conjugate_def is_real_def)

lemma sum_conjugate:
  "map (\<lambda>j. chi ! j + cnj (chi ! j)) [0..<length chi] = map2 (+) chi (map cnj chi)"
  by (rule nth_equalityI) auto

lemma sum_conjugate_commute:
  "map2 (+) (map cnj chi) (map cnj (map cnj chi)) = map2 (+) chi (map cnj chi)"
  by (rule nth_equalityI) (auto simp: add.commute)

lemma sum_conjugate_real: "self_conjugate (map2 (+) chi (map cnj chi))"
  by (auto simp: self_conjugate_def is_real_def set_zip)

lemma filter_remove1_length:
  "x \<in> set xs \<Longrightarrow> Q x \<Longrightarrow> Suc (length (filter Q (remove1 x xs))) = length (filter Q xs)"
  by (induction xs) auto

lemma filter_remove1_other:
  "\<not> Q x \<Longrightarrow> filter Q (remove1 x xs) = filter Q xs"
  by (induction xs) auto

lemma extract_real_fold:
  "extract_real n cs = Inr table \<Longrightarrow>
   \<forall>chi\<in>set cs. \<not> self_conjugate chi \<longrightarrow> length chi = n \<Longrightarrow>
   (\<forall>chi\<in>set cs. self_conjugate chi \<longrightarrow> chi \<in> set table) \<and>
   (\<forall>chi\<in>set cs. \<not> self_conjugate chi \<longrightarrow>
      map cnj chi \<in> set cs \<and> map2 (+) chi (map cnj chi) \<in> set table) \<and>
   (\<forall>row\<in>set table. self_conjugate row \<and>
      (row \<in> set cs \<or>
       (\<exists>chi\<in>set cs. \<not> self_conjugate chi \<and> row = map2 (+) chi (map cnj chi)))) \<and>
   2 * length table =
     2 * length (filter self_conjugate cs) + length (filter (\<lambda>chi. \<not> self_conjugate chi) cs)"
proof (induction n cs arbitrary: table rule: extract_real.induct)
  case (1 n)
  then show ?case by simp
next
  case (2 n chi character_set)
  show ?case
  proof (cases "self_conjugate chi")
    case True
    then have real: "\<not> (\<exists>x\<in>set chi. \<not> is_real x)" by (simp add: self_conjugate_def)
    with "2.prems"(1) obtain rest where rest: "extract_real n character_set = Inr rest"
      and table: "table = chi # rest"
      by (cases "extract_real n character_set") auto
    from "2.prems"(2) have "\<forall>chi\<in>set character_set. \<not> self_conjugate chi \<longrightarrow> length chi = n"
      by simp
    from "2.IH"(2)[OF real rest this] True table show ?thesis by auto
  next
    case False
    then have nonreal: "\<exists>x\<in>set chi. \<not> is_real x" by (simp add: self_conjugate_def)
    let ?c = "map cnj chi"
    from False have c_nonreal: "\<not> self_conjugate ?c" by (simp add: self_conjugate_cnj)
    from False "2.prems"(2) have len: "length chi = n" by simp
    from "2.prems"(1) nonreal have mem: "?c \<in> set character_set"
      by (auto split: if_splits)
    with "2.prems"(1) nonreal len obtain rest where
      rest: "extract_real n (remove1 ?c character_set) = Inr rest"
      and table: "table = map2 (+) chi ?c # rest"
      by (cases "extract_real n (remove1 ?c character_set)")
        (auto simp: sum_conjugate[symmetric])
    have "\<forall>chi\<in>set (remove1 ?c character_set). \<not> self_conjugate chi \<longrightarrow> length chi = n"
      using "2.prems"(2) by (auto dest: notin_set_remove1)
    from "2.IH"(1)[OF nonreal _ _ rest this] mem len
    have ih1: "\<forall>e\<in>set (remove1 ?c character_set). self_conjugate e \<longrightarrow> e \<in> set rest"
      and ih2: "\<forall>e\<in>set (remove1 ?c character_set). \<not> self_conjugate e \<longrightarrow>
                  map cnj e \<in> set (remove1 ?c character_set) \<and> map2 (+) e (map cnj e) \<in> set rest"
      and ih3: "\<forall>row\<in>set rest. self_conjugate row \<and>
                  (row \<in> set (remove1 ?c character_set) \<or>
                   (\<exists>e\<in>set (remove1 ?c character_set). \<not> self_conjugate e \<and>
                      row = map2 (+) e (map cnj e)))"
      and ih4: "2 * length rest =
                  2 * length (filter self_conjugate (remove1 ?c character_set)) +
                  length (filter (\<lambda>chi. \<not> self_conjugate chi) (remove1 ?c character_set))"
      by simp_all
    have sub: "set (remove1 ?c character_set) \<subseteq> set character_set"
      by (rule set_remove1_subset)
    have split: "e \<in> set character_set \<Longrightarrow> e = ?c \<or> e \<in> set (remove1 ?c character_set)" for e
      by (cases "e = ?c") (simp_all add: in_set_remove1)
    have a: "\<forall>e\<in>set (chi # character_set). self_conjugate e \<longrightarrow> e \<in> set table"
    proof (intro ballI impI)
      fix e assume e: "e \<in> set (chi # character_set)" and r: "self_conjugate e"
      with False have "e \<in> set character_set" by auto
      from split[OF this] r c_nonreal have "e \<in> set (remove1 ?c character_set)" by auto
      with ih1 r table show "e \<in> set table" by simp
    qed
    have b: "\<forall>e\<in>set (chi # character_set). \<not> self_conjugate e \<longrightarrow>
               map cnj e \<in> set (chi # character_set) \<and> map2 (+) e (map cnj e) \<in> set table"
    proof (intro ballI impI)
      fix e assume e: "e \<in> set (chi # character_set)" and r: "\<not> self_conjugate e"
      consider "e = chi" | "e = ?c" | "e \<in> set (remove1 ?c character_set)"
        using e split by auto
      then show "map cnj e \<in> set (chi # character_set) \<and> map2 (+) e (map cnj e) \<in> set table"
      proof cases
        case 1
        with mem table show ?thesis by simp
      next
        case 2
        have "map cnj ?c = chi" by (simp add: comp_def)
        with 2 table sum_conjugate_commute[of chi] show ?thesis by simp
      next
        case 3
        with ih2 r sub table show ?thesis by auto
      qed
    qed
    have c: "\<forall>row\<in>set table. self_conjugate row \<and>
               (row \<in> set (chi # character_set) \<or>
                (\<exists>e\<in>set (chi # character_set). \<not> self_conjugate e \<and>
                   row = map2 (+) e (map cnj e)))"
    proof
      fix row assume "row \<in> set table"
      with table consider "row = map2 (+) chi ?c" | "row \<in> set rest" by auto
      then show "self_conjugate row \<and>
               (row \<in> set (chi # character_set) \<or>
                (\<exists>e\<in>set (chi # character_set). \<not> self_conjugate e \<and>
                   row = map2 (+) e (map cnj e)))"
      proof cases
        case 1
        with False sum_conjugate_real[of chi] show ?thesis by auto
      next
        case 2
        with ih3 sub show ?thesis by fastforce
      qed
    qed
    have d: "2 * length table =
               2 * length (filter self_conjugate (chi # character_set)) +
               length (filter (\<lambda>chi. \<not> self_conjugate chi) (chi # character_set))"
      using ih4 table False
        filter_remove1_length[OF mem, of "\<lambda>chi. \<not> self_conjugate chi"] c_nonreal
        filter_remove1_other[of self_conjugate ?c character_set]
      by simp
    from a b c d show ?thesis by blast
  qed
qed

lemma extract_real_length:
  "extract_real n cs = Inr table \<Longrightarrow> chi \<in> set cs \<Longrightarrow> \<not> self_conjugate chi \<Longrightarrow>
   \<exists>e\<in>set cs. n \<le> length e"
proof (induction n cs arbitrary: table rule: extract_real.induct)
  case (1 n)
  then show ?case by simp
next
  case (2 n c character_set)
  show ?case
  proof (cases "\<exists>x\<in>set c. \<not> is_real x")
    case True
    with "2.prems"(1) have "n \<le> length c" by (auto split: if_splits)
    then show ?thesis by auto
  next
    case False
    with "2.prems"(1) obtain rest where rest: "extract_real n character_set = Inr rest"
      by (cases "extract_real n character_set") auto
    from False "2.prems"(3) have "chi \<noteq> c" by (auto simp: self_conjugate_def)
    with "2.prems"(2) have "chi \<in> set character_set" by simp
    from "2.IH"(2)[OF False rest this "2.prems"(3)] show ?thesis by auto
  qed
qed

lemma n_characters_counts_rows:
  "characters P = Inr ch \<Longrightarrow> n_real_characters ch = length (real_character_table ch)"
  by (auto simp: characters_def Let_def split: if_splits sum.splits)

text \<open>
  When \<open>_characters\<close> returns on a square table, every character of the set has \<open>G_order\<close>
  values, and if one of them is not real the number of irreducible characters is \<open>G_order\<close>:
  the comprehension over \<open>xrange(G_order)\<close> did not raise, so a row has at least \<open>G_order\<close>
  values, and the sum over \<open>xrange(n_characters)\<close> did not raise either.
\<close>

lemma characters_square:
  assumes ch: "characters P = Inr ch"
    and square: "\<forall>chi\<in>set (Irr P). length chi = length (Irr P)"
    and pop: "set (character_set P) = set (map (take (Order P)) (Irr P))"
  shows "extract_real (length (Irr P)) (character_set P) = Inr (real_character_table ch)"
    and "G_order ch = Order P"
    and "\<forall>chi\<in>set (character_set P). length chi = Order P"
    and "(\<exists>chi\<in>set (character_set P). \<not> self_conjugate chi) \<Longrightarrow> length (Irr P) = Order P"
proof -
  from ch have long: "\<forall>chi\<in>set (Irr P). Order P \<le> length chi"
    by (auto simp: characters_def Let_def split: if_splits)
  from ch show ex: "extract_real (length (Irr P)) (character_set P) = Inr (real_character_table ch)"
    and "G_order ch = Order P"
    by (auto simp: characters_def character_set_def Let_def split: if_splits sum.splits)
  from long pop show len: "\<forall>chi\<in>set (character_set P). length chi = Order P"
    by auto
  assume "\<exists>chi\<in>set (character_set P). \<not> self_conjugate chi"
  then obtain chi where chi: "chi \<in> set (character_set P)" "\<not> self_conjugate chi" by auto
  from extract_real_length[OF ex chi] len have le: "length (Irr P) \<le> Order P" by auto
  from chi pop obtain row where "row \<in> set (Irr P)" by auto
  with long square have "Order P \<le> length (Irr P)" by auto
  with le show "length (Irr P) = Order P" by simp
qed

lemma characters_gap_c4:
  "characters gap_c4 =
     Inr \<lparr>real_character_table = [[2, 0, - 2, 0], [1, - 1, 1, - 1], [1, 1, 1, 1]],
          character_degree = [1, 1, 1, 1], G_order = 4,
          perm = [[0, 1, 2, 3], [1, 2, 3, 0], [2, 3, 0, 1], [3, 0, 1, 2]],
          n_real_characters = 3\<rparr>"
  by (simp add: characters_def gap_c4_def is_real_def complex_eq_iff
      upt_rec[of _ "numeral _"])


text \<open>
  C3. The folding removes a character that is not real together with its conjugate and
  emits their sum as one real character, emits a real character as it is, and
  \<open>n_characters()\<close> is the number of characters emitted. The hypotheses are the contract of
  the provider: the table of the irreducible characters is square, and the set gives up
  the characters it was built from, in any order. Then, whenever \<open>_characters\<close> returns: every
  real character of the set is a row of the table; for every character of the set that is
  not real, its conjugate is in the set and the sum of the two, value by value over the
  whole character, is a row of the table; every row is real and is one of these; a real
  character counts for one row and a character that is not real for half a row; and
  \<open>n_characters()\<close> is the number of rows.
\<close>

theorem real_character_folding:
  assumes "characters P = Inr ch"
    and "\<forall>chi\<in>set (Irr P). length chi = length (Irr P)"
    and "set (character_set P) = set (map (take (Order P)) (Irr P))"
  shows "(\<forall>chi\<in>set (character_set P). self_conjugate chi \<longrightarrow> chi \<in> set (real_character_table ch)) \<and>
   (\<forall>chi\<in>set (character_set P). \<not> self_conjugate chi \<longrightarrow>
      map cnj chi \<in> set (character_set P) \<and>
      map2 (+) chi (map cnj chi) \<in> set (real_character_table ch)) \<and>
   (\<forall>row\<in>set (real_character_table ch). self_conjugate row \<and>
      (row \<in> set (character_set P) \<or>
       (\<exists>chi\<in>set (character_set P). \<not> self_conjugate chi \<and> row = map2 (+) chi (map cnj chi)))) \<and>
   2 * length (real_character_table ch) =
     2 * length (filter self_conjugate (character_set P)) +
     length (filter (\<lambda>chi. \<not> self_conjugate chi) (character_set P)) \<and>
   n_characters P = Inr (length (real_character_table ch))"
proof -
  note sq = characters_square[OF assms]
  have "\<forall>chi\<in>set (character_set P). \<not> self_conjugate chi \<longrightarrow> length chi = length (Irr P)"
    using sq(3) sq(4) by auto
  from extract_real_fold[OF sq(1) this] n_characters_counts_rows[OF assms(1)] assms(1)
  show ?thesis by (simp add: n_characters_def)
qed

theorem real_character_folding_witness:
  "characters gap_c4 =
     Inr \<lparr>real_character_table = [[2, 0, - 2, 0], [1, - 1, 1, - 1], [1, 1, 1, 1]],
          character_degree = [1, 1, 1, 1], G_order = 4,
          perm = [[0, 1, 2, 3], [1, 2, 3, 0], [2, 3, 0, 1], [3, 0, 1, 2]],
          n_real_characters = 3\<rparr> \<and>
   map length (Irr gap_c4) = [4, 4, 4, 4] \<and>
   character_set gap_c4 = [[1, - \<i>, - 1, \<i>], [1, - 1, 1, - 1], [1, \<i>, - 1, - \<i>], [1, 1, 1, 1]] \<and>
   map self_conjugate (character_set gap_c4) = [False, True, False, True] \<and>
   map2 (+) [1, - \<i>, - 1, \<i>] (map cnj [1, - \<i>, - 1, \<i>]) = [2, 0, - 2, 0] \<and>
   n_characters gap_c4 = Inr 3"
  using real_character_folding[OF characters_gap_c4]
  by (simp add: characters_gap_c4 n_characters_def)
    (simp add: gap_c4_def character_set_def self_conjugate_def is_real_def complex_eq_iff)

text \<open>
  C10. Every row of \<open>character_table()\<close> has one entry for each element of the group, so
  that \<open>character_table()[i][t]\<close> is in bounds for every \<open>t\<close> below
  \<open>automorphism_group_order()\<close>. Under the contract of the provider stated for C3, whenever
  \<open>_characters\<close> returns: a row that is a character of the set was cut at \<open>G_order\<close> values,
  and a row that is a sum has \<open>n_characters\<close> values, which is \<open>G_order\<close> as soon as a
  sum is emitted.
\<close>

theorem character_rows_full:
  assumes "characters P = Inr ch"
    and "\<forall>chi\<in>set (Irr P). length chi = length (Irr P)"
    and "set (character_set P) = set (map (take (Order P)) (Irr P))"
  shows "automorphism_group_order P = Inr (G_order ch) \<and>
    (\<forall>row\<in>set (real_character_table ch).
       length row = G_order ch \<and> (\<forall>t<G_order ch. getitem row (int t) = Inr (row ! t)))"
proof -
  note sq = characters_square[OF assms]
  have nr: "\<forall>chi\<in>set (character_set P). \<not> self_conjugate chi \<longrightarrow> length chi = length (Irr P)"
    using sq(3) sq(4) by auto
  have "length row = G_order ch" if "row \<in> set (real_character_table ch)" for row
  proof -
    from extract_real_fold[OF sq(1) nr] that
    consider "row \<in> set (character_set P)"
      | chi where "chi \<in> set (character_set P)" "row = map2 (+) chi (map cnj chi)"
      by blast
    then show ?thesis
      using sq(2) sq(3) by cases auto
  qed
  then show ?thesis using assms(1)
    by (auto simp: automorphism_group_order_def getitem_def py_pos_def)
qed

theorem character_rows_full_witness:
  "map length (Irr gap_c4) = [4, 4, 4, 4] \<and>
   set (character_set gap_c4) = set (map (take (Order gap_c4)) (Irr gap_c4)) \<and>
   automorphism_group_order gap_c4 = Inr 4 \<and>
   map_sum id (map length) (character_table gap_c4) = Inr [4, 4, 4] \<and>
   map_sum id (\<lambda>table. map (\<lambda>t. getitem (table ! 0) (int t)) [0..<4]) (character_table gap_c4) =
     Inr [Inr 2, Inr 0, Inr (- 2), Inr 0]"
  using character_rows_full[OF characters_gap_c4]
  by (simp add: characters_gap_c4 automorphism_group_order_def character_table_def)
    (auto simp: gap_c4_def character_set_def getitem_def py_pos_def upt_rec[of _ "numeral _"])

section \<open>Properties of the interval diagram\<close>

lemma follow_length:
  "follow c orbit d_init cover_copies st = Inr (sing, rest) \<Longrightarrow> length rest \<le> length cover_copies"
proof (induction c orbit d_init cover_copies st rule: follow.induct)
  case (1 c orbit d_init cover_copies st)
  note unfold = follow.simps[of c orbit d_init cover_copies st]
  show ?case
  proof (cases "for_loop (turn c) orbit st")
    case (Inl e)
    with "1.prems" show ?thesis unfolding unfold by simp
  next
    case (Inr st')
    show ?thesis
    proof (cases "snd st' = d_init")
      case True
      with "1.prems" Inr show ?thesis unfolding unfold by simp
    next
      case False
      with "1.prems" Inr have mem: "snd st' \<in> set cover_copies"
        unfolding unfold by (auto split: if_splits)
      with "1.prems" Inr False
      have "follow c orbit d_init (remove1 (snd st') cover_copies) st' = Inr (sing, rest)"
        unfolding unfold by simp
      from "1.IH"[OF Inr False _ this] mem
      have "length rest \<le> length (remove1 (snd st') cover_copies)" by simp
      then show ?thesis by (simp add: length_remove1 split: if_splits)
    qed
  qed
qed

lemma perm_list_facts:
  assumes "mset p = mset (map int [0..<n])"
  shows "length p = n" and "distinct p" and "set p = {x. in_copies n x}"
proof -
  from mset_eq_length[OF assms] show "length p = n" by simp
  have "distinct (map int [0..<n])" by (simp add: distinct_map)
  with assms show "distinct p" by (metis mset_eq_imp_distinct_iff)
  from assms have "set p = set (map int [0..<n])" by (rule mset_eq_setD)
  also have "\<dots> = {x. in_copies n x}"
  proof (rule set_eqI)
    fix x
    show "x \<in> set (map int [0..<n]) \<longleftrightarrow> x \<in> {x. in_copies n x}"
    proof
      assume "x \<in> set (map int [0..<n])"
      then show "x \<in> {x. in_copies n x}" by (auto simp: in_copies_def)
    next
      assume "x \<in> {x. in_copies n x}"
      then have "x = int (nat x)" "nat x < n" by (auto simp: in_copies_def)
      then show "x \<in> set (map int [0..<n])" by (metis atLeastLessThan_iff imageI image_set le0 set_upt)
    qed
  qed
  finally show "set p = {x. in_copies n x}" .
qed

lemma index_of_mem:
  "x \<in> set p \<Longrightarrow> \<exists>k. index_of p x = Inr k \<and> k < length p \<and> p ! k = x"
proof (induction p)
  case Nil
  then show ?case by simp
next
  case (Cons y ys)
  show ?case
  proof (cases "y = x")
    case True
    then show ?thesis by simp
  next
    case False
    with Cons.prems have "x \<in> set ys" by simp
    from Cons.IH[OF this] obtain k where "index_of ys x = Inr k" "k < length ys" "ys ! k = x"
      by blast
    with False show ?thesis by simp
  qed
qed

lemma index_of_nth: "index_of p x = Inr k \<Longrightarrow> k < length p \<and> p ! k = x"
proof (induction p arbitrary: k)
  case Nil
  then show ?case by simp
next
  case (Cons y ys)
  show ?case
  proof (cases "y = x")
    case True
    with Cons.prems show ?thesis by simp
  next
    case False
    with Cons.prems obtain k' where k': "index_of ys x = Inr k'" "k = Suc k'"
      by (cases "index_of ys x") auto
    from Cons.IH[OF k'(1)] k'(2) show ?thesis by simp
  qed
qed

lemma getitem_in_range: "in_copies (length p) x \<Longrightarrow> getitem p x = Inr (p ! nat x)"
  by (simp add: getitem_def py_pos_def in_copies_def)

lemma cross_total:
  assumes "valid_occ c occ" and "in_copies (degree_cover c) x"
  shows "\<exists>y. cross c occ x = Inr y \<and> in_copies (degree_cover c) y"
proof -
  let ?p = "permut_cover c ! fst occ"
  from assms(1) have lab: "fst occ < length (permut_cover c)"
    and ms: "mset ?p = mset (map int [0..<degree_cover c])"
    by (simp_all add: valid_occ_def)
  note pf = perm_list_facts[OF ms]
  have po: "perm_of c (fst occ) = Inr ?p"
    using lab by (simp add: perm_of_def getitem_def py_pos_def)
  show ?thesis
  proof (cases "snd occ \<noteq> 0")
    case True
    from assms(2) pf(3) have "x \<in> set ?p" by simp
    from index_of_mem[OF this] obtain k where k: "index_of ?p x = Inr k" "k < length ?p" by blast
    with pf(1) have "in_copies (degree_cover c) (int k)" by (simp add: in_copies_def)
    with True k po show ?thesis by (simp add: cross_def)
  next
    case False
    from assms(2) pf(1) have g: "getitem ?p x = Inr (?p ! nat x)"
      by (simp add: getitem_in_range)
    from assms(2) pf(1) have "nat x < length ?p" by (auto simp: in_copies_def)
    then have "?p ! nat x \<in> set ?p" by simp
    with pf(3) have "in_copies (degree_cover c) (?p ! nat x)" by simp
    with False g po show ?thesis by (simp add: cross_def)
  qed
qed

lemma cross_inj:
  assumes "valid_occ c occ" and "in_copies (degree_cover c) x" and "in_copies (degree_cover c) x'"
    and "cross c occ x = Inr y" and "cross c occ x' = Inr y"
  shows "x = x'"
proof -
  let ?p = "permut_cover c ! fst occ"
  from assms(1) have lab: "fst occ < length (permut_cover c)"
    and ms: "mset ?p = mset (map int [0..<degree_cover c])"
    by (simp_all add: valid_occ_def)
  note pf = perm_list_facts[OF ms]
  have po: "perm_of c (fst occ) = Inr ?p"
    using lab by (simp add: perm_of_def getitem_def py_pos_def)
  show ?thesis
  proof (cases "snd occ \<noteq> 0")
    case True
    with assms(4,5) po obtain k k' where
      k: "index_of ?p x = Inr k" "y = int k" and k': "index_of ?p x' = Inr k'" "y = int k'"
      by (cases "index_of ?p x"; cases "index_of ?p x'") (auto simp: cross_def)
    from index_of_nth[OF k(1)] index_of_nth[OF k'(1)] k(2) k'(2) show ?thesis by simp
  next
    case False
    from assms(2,3) pf(1) have g: "getitem ?p x = Inr (?p ! nat x)" "getitem ?p x' = Inr (?p ! nat x')"
      by (simp_all add: getitem_in_range)
    with False assms(4,5) po have "?p ! nat x = ?p ! nat x'" by (simp add: cross_def)
    moreover from assms(2,3) pf(1) have "nat x < length ?p" "nat x' < length ?p"
      by (auto simp: in_copies_def)
    ultimately have "nat x = nat x'" using pf(2) by (simp add: nth_eq_iff_index_eq)
    with assms(2,3) show ?thesis by (auto simp: in_copies_def)
  qed
qed

lemma pass_prefix:
  "for_loop (turn c) orbit (sing, x) =
     (case for_loop (turn c) orbit ([], x) of Inl e \<Rightarrow> Inl e
      | Inr r \<Rightarrow> Inr (sing @ fst r, snd r))"
proof (induction orbit arbitrary: sing x)
  case Nil
  show ?case by simp
next
  case (Cons occ orbit)
  show ?case
  proof (cases "cross c occ x")
    case (Inl e)
    then show ?thesis by (simp add: turn_def)
  next
    case (Inr y)
    have "for_loop (turn c) (occ # orbit) (sing, x) =
            for_loop (turn c) orbit (sing @ [(fst occ, snd occ, x)], y)"
      using Inr by (simp add: turn_def)
    also have "\<dots> = (case for_loop (turn c) orbit ([], y) of Inl e \<Rightarrow> Inl e
                       | Inr r \<Rightarrow> Inr ((sing @ [(fst occ, snd occ, x)]) @ fst r, snd r))"
      by (rule Cons.IH)
    finally have left: "for_loop (turn c) (occ # orbit) (sing, x) =
        (case for_loop (turn c) orbit ([], y) of Inl e \<Rightarrow> Inl e
         | Inr r \<Rightarrow> Inr ((sing @ [(fst occ, snd occ, x)]) @ fst r, snd r))" .
    have "for_loop (turn c) (occ # orbit) ([], x) =
            for_loop (turn c) orbit ([(fst occ, snd occ, x)], y)"
      using Inr by (simp add: turn_def)
    also have "\<dots> = (case for_loop (turn c) orbit ([], y) of Inl e \<Rightarrow> Inl e
                       | Inr r \<Rightarrow> Inr ([(fst occ, snd occ, x)] @ fst r, snd r))"
      by (rule Cons.IH)
    finally have right: "for_loop (turn c) (occ # orbit) ([], x) =
        (case for_loop (turn c) orbit ([], y) of Inl e \<Rightarrow> Inl e
         | Inr r \<Rightarrow> Inr ([(fst occ, snd occ, x)] @ fst r, snd r))" .
    show ?thesis unfolding left right by (cases "for_loop (turn c) orbit ([], y)") simp_all
  qed
qed

lemma pass_total:
  assumes "\<forall>occ\<in>set orbit. valid_occ c occ" and "in_copies (degree_cover c) x"
  shows "\<exists>s y. for_loop (turn c) orbit ([], x) = Inr (s, y) \<and> in_copies (degree_cover c) y \<and>
           length s = length orbit \<and> (orbit \<noteq> [] \<longrightarrow> snd (snd (hd s)) = x)"
  using assms
proof (induction orbit arbitrary: x)
  case Nil
  then show ?case by simp
next
  case (Cons occ orbit)
  from Cons.prems have v: "valid_occ c occ" and vs: "\<forall>occ\<in>set orbit. valid_occ c occ" by simp_all
  from cross_total[OF v Cons.prems(2)] obtain y where
    y: "cross c occ x = Inr y" "in_copies (degree_cover c) y" by blast
  from Cons.IH[OF vs y(2)] obtain s z where
    sz: "for_loop (turn c) orbit ([], y) = Inr (s, z)" "in_copies (degree_cover c) z"
        "length s = length orbit" by blast
  have "for_loop (turn c) (occ # orbit) ([], x) =
          for_loop (turn c) orbit ([(fst occ, snd occ, x)], y)"
    using y(1) by (simp add: turn_def)
  also have "\<dots> = Inr ((fst occ, snd occ, x) # s, z)"
    by (subst pass_prefix) (simp add: sz(1))
  finally show ?case using sz(2,3) by simp
qed

lemma pass_inj:
  assumes "\<forall>occ\<in>set orbit. valid_occ c occ"
    and "in_copies (degree_cover c) x" and "in_copies (degree_cover c) x'"
    and "pass_copy c orbit x = Inr y" and "pass_copy c orbit x' = Inr y"
  shows "x = x'"
  using assms
proof (induction orbit arbitrary: x x')
  case Nil
  then show ?case by (simp add: pass_copy_def)
next
  case (Cons occ orbit)
  from Cons.prems have v: "valid_occ c occ" and vs: "\<forall>occ\<in>set orbit. valid_occ c occ" by simp_all
  from cross_total[OF v Cons.prems(2)] obtain z where
    z: "cross c occ x = Inr z" "in_copies (degree_cover c) z" by blast
  from cross_total[OF v Cons.prems(3)] obtain z' where
    z': "cross c occ x' = Inr z'" "in_copies (degree_cover c) z'" by blast
  have step: "pass_copy c (occ # orbit) u = pass_copy c orbit w" if "cross c occ u = Inr w" for u w
  proof -
    have "for_loop (turn c) (occ # orbit) ([], u) =
            for_loop (turn c) orbit ([(fst occ, snd occ, u)], w)"
      using that by (simp add: turn_def)
    also have "\<dots> = (case for_loop (turn c) orbit ([], w) of Inl e \<Rightarrow> Inl e
                       | Inr r \<Rightarrow> Inr ([(fst occ, snd occ, u)] @ fst r, snd r))"
      by (rule pass_prefix)
    finally show ?thesis
      by (cases "for_loop (turn c) orbit ([], w)") (simp_all add: pass_copy_def)
  qed
  from Cons.prems(4) step[OF z(1)] have a: "pass_copy c orbit z = Inr y" by simp
  from Cons.prems(5) step[OF z'(1)] have b: "pass_copy c orbit z' = Inr y" by simp
  from Cons.IH[OF vs z(2) z'(2) a b] have "z = z'" .
  with z(1) z'(1) show ?case using cross_inj[OF v Cons.prems(2,3)] by simp
qed

lemma starts_append:
  assumes "0 < n" and "n dvd length sing" and "length s = n"
  shows "starts n (sing @ s) = starts n sing @ [snd (snd (hd s))]"
proof -
  from assms(2) obtain m where "length sing = n * m" unfolding dvd_def by blast
  then have m: "length sing = m * n" by (simp add: mult.commute)
  with assms have d1: "length (sing @ s) div n = Suc m" by simp
  from m assms(1) have d0: "length sing div n = m" by simp
  have inner: "(sing @ s) ! (i * n) = sing ! (i * n)" if "i < m" for i
  proof -
    from that assms(1) have "i * n < m * n" by simp
    with m show ?thesis by (simp add: nth_append)
  qed
  from assms(1,3) have "s \<noteq> []" by auto
  then have last: "(sing @ s) ! (m * n) = hd s"
    using m by (simp add: nth_append hd_conv_nth)
  show ?thesis
    unfolding starts_def d1 d0 using inner last by simp
qed

lemma pass_copy_total:
  assumes "\<forall>occ\<in>set orbit. valid_occ c occ" and "in_copies (degree_cover c) x"
  shows "\<exists>y. pass_copy c orbit x = Inr y \<and> in_copies (degree_cover c) y"
  using pass_total[OF assms] by (auto simp: pass_copy_def)

lemma follow_closes:
  assumes valid: "\<forall>occ\<in>set orbit. valid_occ c occ" and ne: "orbit \<noteq> []"
    and init: "in_copies (degree_cover c) d_init"
  shows "in_copies (degree_cover c) x \<Longrightarrow> \<forall>u\<in>set copies. in_copies (degree_cover c) u \<Longrightarrow>
     distinct copies \<Longrightarrow> d_init \<notin> set copies \<Longrightarrow> x \<notin> set copies \<Longrightarrow>
     \<forall>u\<in>insert x (set copies). \<forall>v. pass_copy c orbit u = Inr v \<longrightarrow>
        v \<in> insert d_init (set copies) \<Longrightarrow>
     length orbit dvd length sing0 \<Longrightarrow>
     \<exists>sing rest. follow c orbit d_init copies (sing0, x) = Inr (sing, rest) \<and>
        distinct rest \<and> set rest \<subseteq> set copies \<and>
        (\<forall>u\<in>set rest. \<forall>v. pass_copy c orbit u = Inr v \<longrightarrow> v \<in> set rest) \<and>
        mset (starts (length orbit) sing) + mset rest =
          mset (starts (length orbit) sing0) + {#x#} + mset copies"
proof (induction "length copies" arbitrary: copies sing0 x rule: less_induct)
  case less
  let ?n = "degree_cover c"
  from pass_total[OF valid less.prems(1)] ne obtain s y where
    s: "for_loop (turn c) orbit ([], x) = Inr (s, y)" "in_copies ?n y"
       "length s = length orbit" "snd (snd (hd s)) = x" by blast
  have loop: "for_loop (turn c) orbit (sing0, x) = Inr (sing0 @ s, y)"
    by (subst pass_prefix) (simp add: s(1))
  have pc: "pass_copy c orbit x = Inr y" by (simp add: pass_copy_def s(1))
  from ne have pos: "0 < length orbit" by simp
  have st: "starts (length orbit) (sing0 @ s) = starts (length orbit) sing0 @ [x]"
    using starts_append[OF pos less.prems(7) s(3)] s(4) by simp
  note unfold = follow.simps[of c orbit d_init copies "(sing0, x)"]
  show ?case
  proof (cases "y = d_init")
    case True
    have res: "follow c orbit d_init copies (sing0, x) = Inr (sing0 @ s, copies)"
      unfolding unfold loop using True by simp
    have closed: "\<forall>u\<in>set copies. \<forall>v. pass_copy c orbit u = Inr v \<longrightarrow> v \<in> set copies"
    proof (intro ballI allI impI)
      fix u v assume u: "u \<in> set copies" and v: "pass_copy c orbit u = Inr v"
      from less.prems(6) u v have "v \<in> insert d_init (set copies)" by blast
      moreover have "v \<noteq> d_init"
      proof
        assume "v = d_init"
        with v True pc have "pass_copy c orbit u = Inr y" by simp
        from pass_inj[OF valid _ less.prems(1) this pc] less.prems(2) u have "u = x" by blast
        with u less.prems(5) show False by simp
      qed
      ultimately show "v \<in> set copies" by simp
    qed
    show ?thesis
      using res less.prems(3) closed st by auto
  next
    case False
    from less.prems(6) pc have "y \<in> insert d_init (set copies)" by blast
    with False have mem: "y \<in> set copies" by simp
    let ?cs = "remove1 y copies"
    have res: "follow c orbit d_init copies (sing0, x) = follow c orbit d_init ?cs (sing0 @ s, y)"
      unfolding unfold loop using False mem by simp
    have len: "length ?cs < length copies"
      using mem length_pos_if_in_set[OF mem] by (simp add: length_remove1)
    have setcs: "set ?cs = set copies - {y}"
      using less.prems(3) by simp
    have p2: "\<forall>u\<in>set ?cs. in_copies ?n u" using less.prems(2) setcs by simp
    have p3: "distinct ?cs" using less.prems(3) by simp
    have p4: "d_init \<notin> set ?cs" using less.prems(4) setcs by simp
    have p5: "y \<notin> set ?cs" using setcs by simp
    have p6: "\<forall>u\<in>insert y (set ?cs). \<forall>v. pass_copy c orbit u = Inr v \<longrightarrow>
                v \<in> insert d_init (set ?cs)"
    proof (intro ballI allI impI)
      fix u v assume u: "u \<in> insert y (set ?cs)" and v: "pass_copy c orbit u = Inr v"
      from u mem setcs have uc: "u \<in> set copies" by auto
      with less.prems(6) v have "v \<in> insert d_init (set copies)" by blast
      moreover have "v \<noteq> y"
      proof
        assume "v = y"
        with v have "pass_copy c orbit u = Inr y" by simp
        from pass_inj[OF valid _ less.prems(1) this pc] less.prems(2) uc have "u = x" by blast
        with uc less.prems(5) show False by simp
      qed
      ultimately show "v \<in> insert d_init (set ?cs)" using setcs by auto
    qed
    have p7: "length orbit dvd length (sing0 @ s)"
      using less.prems(7) s(3) by simp
    from less.hyps[OF len s(2) p2 p3 p4 p5 p6 p7] obtain sing rest where
      r: "follow c orbit d_init ?cs (sing0 @ s, y) = Inr (sing, rest)"
         "distinct rest" "set rest \<subseteq> set ?cs"
         "\<forall>u\<in>set rest. \<forall>v. pass_copy c orbit u = Inr v \<longrightarrow> v \<in> set rest"
         "mset (starts (length orbit) sing) + mset rest =
            mset (starts (length orbit) (sing0 @ s)) + {#y#} + mset ?cs"
      by blast
    have "mset ?cs + {#y#} = mset copies" using mem by simp
    then have "mset (starts (length orbit) sing) + mset rest =
                 mset (starts (length orbit) sing0) + {#x#} + mset copies"
      using r(5) st by (simp add: ac_simps)
    with r(1-4) res setcs show ?thesis by auto
  qed
qed

lemma lift_partition:
  assumes valid: "\<forall>occ\<in>set orbit. valid_occ c occ" and ne: "orbit \<noteq> []"
  shows "\<forall>u\<in>set copies. in_copies (degree_cover c) u \<Longrightarrow> distinct copies \<Longrightarrow>
     \<forall>u\<in>set copies. \<forall>v. pass_copy c orbit u = Inr v \<longrightarrow> v \<in> set copies \<Longrightarrow>
     \<exists>ss. lift c orbit copies = Inr ss \<and>
        mset (concat (map (starts (length orbit)) ss)) = mset copies"
proof (induction "length copies" arbitrary: copies rule: less_induct)
  case less
  show ?case
  proof (cases copies)
    case Nil
    then show ?thesis by (simp add: lift.simps starts_def)
  next
    case (Cons d0 cs)
    from less.prems Cons have d0: "in_copies (degree_cover c) d0"
      and cs: "\<forall>u\<in>set cs. in_copies (degree_cover c) u"
      and dist: "distinct cs" and notin: "d0 \<notin> set cs"
      and closed: "\<forall>u\<in>insert d0 (set cs). \<forall>v. pass_copy c orbit u = Inr v \<longrightarrow>
                     v \<in> insert d0 (set cs)"
      by auto
    have dv: "length orbit dvd length ([] :: (nat \<times> int \<times> int) list)" by simp
    from follow_closes[OF valid ne d0 d0 cs dist notin notin closed dv] obtain sing rest where
      r: "follow c orbit d0 cs ([], d0) = Inr (sing, rest)"
         "distinct rest" "set rest \<subseteq> set cs"
         "\<forall>u\<in>set rest. \<forall>v. pass_copy c orbit u = Inr v \<longrightarrow> v \<in> set rest"
         "mset (starts (length orbit) sing) + mset rest =
            mset (starts (length orbit) []) + {#d0#} + mset cs"
      by blast
    from follow_length[OF r(1)] Cons have len: "length rest < length copies" by simp
    from r(3) cs have rin: "\<forall>u\<in>set rest. in_copies (degree_cover c) u" by blast
    from less.hyps[OF len rin r(2) r(4)] obtain ss where
      ss: "lift c orbit rest = Inr ss"
          "mset (concat (map (starts (length orbit)) ss)) = mset rest" by blast
    have "lift c orbit copies = Inr (sing # ss)"
      using Cons r(1) ss(1) by (simp add: lift.simps)
    moreover have "mset (concat (map (starts (length orbit)) (sing # ss))) = mset copies"
      using ss(2) r(5) Cons by (simp add: starts_def)
    ultimately show ?thesis by blast
  qed
qed

lemma singularities_over_partition:
  assumes "\<forall>occ\<in>set orbit. valid_occ c occ" and "orbit \<noteq> []"
  shows "\<exists>ss. singularities_over c orbit = Inr ss \<and>
           mset (concat (map (starts (length orbit)) ss)) = mset (map int [0..<degree_cover c])"
proof -
  let ?copies = "map int [0..<degree_cover c]"
  have a: "\<forall>u\<in>set ?copies. in_copies (degree_cover c) u" by (auto simp: in_copies_def)
  have b: "distinct ?copies" by (simp add: distinct_map)
  have c: "\<forall>u\<in>set ?copies. \<forall>v. pass_copy c orbit u = Inr v \<longrightarrow> v \<in> set ?copies"
  proof (intro ballI allI impI)
    fix u v assume "u \<in> set ?copies" and v: "pass_copy c orbit u = Inr v"
    then have "in_copies (degree_cover c) u" by (auto simp: in_copies_def)
    from pass_copy_total[OF assms(1) this] v have "in_copies (degree_cover c) v" by auto
    then have "v = int (nat v)" "nat v < degree_cover c" by (auto simp: in_copies_def)
    then show "v \<in> set ?copies" by (metis atLeastLessThan_iff imageI image_set le0 set_upt)
  qed
  from lift_partition[OF assms a b c] assms(2) show ?thesis
    by (simp add: singularities_over_def)
qed

lemma for_each_all:
  "\<forall>x\<in>set xs. \<exists>y. f x = Inr y \<and> Q x y \<Longrightarrow> \<exists>ys. for_each f xs = Inr ys \<and> list_all2 Q xs ys"
proof (induction xs)
  case Nil
  then show ?case by simp
next
  case (Cons x xs)
  from Cons.prems obtain y where y: "f x = Inr y" "Q x y" by auto
  from Cons.IH Cons.prems obtain ys where ys: "for_each f xs = Inr ys" "list_all2 Q xs ys" by auto
  from y ys show ?case by simp
qed

lemma funpow_returns:
  fixes f :: "'a \<Rightarrow> 'a"
  assumes fin: "finite D" and into: "f ` D \<subseteq> D" and inj: "inj_on f D" and x: "x \<in> D"
  shows "\<exists>k. 0 < k \<and> k \<le> card D \<and> (f ^^ k) x = x"
proof -
  have stay: "(f ^^ i) u \<in> D" if "u \<in> D" for i u
    using that into by (induction i) auto
  have inj_pow: "inj_on (f ^^ i) D" for i
  proof (induction i)
    case 0
    show ?case by simp
  next
    case (Suc i)
    show ?case
    proof (rule inj_onI)
      fix u v assume u: "u \<in> D" and v: "v \<in> D" and eq: "(f ^^ Suc i) u = (f ^^ Suc i) v"
      then have "f ((f ^^ i) u) = f ((f ^^ i) v)" by simp
      with inj stay[OF u] stay[OF v] have "(f ^^ i) u = (f ^^ i) v" by (auto dest: inj_onD)
      with Suc u v show "u = v" by (auto dest: inj_onD)
    qed
  qed
  let ?g = "\<lambda>i. (f ^^ i) x"
  have "?g ` {0..card D} \<subseteq> D" using stay[OF x] by auto
  then have "card (?g ` {0..card D}) \<le> card D" using fin by (rule card_mono[rotated])
  then have "card (?g ` {0..card D}) < card {0..card D}" by simp
  then have "\<not> inj_on ?g {0..card D}" by (rule pigeonhole)
  then obtain i j where ij: "i \<le> card D" "j \<le> card D" "i \<noteq> j" "?g i = ?g j"
    by (auto simp: inj_on_def)
  have main: "\<exists>k. 0 < k \<and> k \<le> card D \<and> (f ^^ k) x = x"
    if "a < b" "b \<le> card D" "(f ^^ a) x = (f ^^ b) x" for a b
  proof -
    from that(1) have "b = a + (b - a)" by simp
    then have "(f ^^ b) x = (f ^^ a) ((f ^^ (b - a)) x)" by (metis funpow_add o_apply)
    with that(3) have "(f ^^ a) x = (f ^^ a) ((f ^^ (b - a)) x)" by simp
    with inj_pow[of a] x stay[OF x, of "b - a"] have "x = (f ^^ (b - a)) x"
      by (auto dest: inj_onD)
    with that(1,2) show ?thesis by (intro exI[of _ "b - a"]) auto
  qed
  from ij show ?thesis
    using main[of i j] main[of j i] by (cases "i < j") auto
qed

lemma passes_return:
  assumes valid: "\<forall>occ\<in>set orbit. valid_occ c occ" and x: "in_copies (degree_cover c) x"
  shows "\<exists>k. 0 < k \<and> k \<le> degree_cover c \<and> passes c orbit k x = Inr x"
proof -
  let ?n = "degree_cover c"
  let ?D = "{u. in_copies ?n u}"
  define f where "f u = (case pass_copy c orbit u of Inl e \<Rightarrow> u | Inr v \<Rightarrow> v)" for u
  have pf: "pass_copy c orbit u = Inr (f u) \<and> in_copies ?n (f u)" if "in_copies ?n u" for u
    using pass_copy_total[OF valid that] by (auto simp: f_def)
  have D: "?D = int ` {0..<?n}"
  proof (rule set_eqI)
    fix u
    show "u \<in> ?D \<longleftrightarrow> u \<in> int ` {0..<?n}"
    proof
      assume "u \<in> ?D"
      then have "u = int (nat u)" "nat u \<in> {0..<?n}" by (auto simp: in_copies_def)
      then show "u \<in> int ` {0..<?n}" by (rule image_eqI)
    next
      assume "u \<in> int ` {0..<?n}"
      then show "u \<in> ?D" by (auto simp: in_copies_def)
    qed
  qed
  have fin: "finite ?D" unfolding D by simp
  have card: "card ?D = ?n" unfolding D by (simp add: card_image)
  have into: "f ` ?D \<subseteq> ?D" using pf by auto
  have inj: "inj_on f ?D"
  proof (rule inj_onI)
    fix u v assume u: "u \<in> ?D" and v: "v \<in> ?D" and eq: "f u = f v"
    from u v pf have "pass_copy c orbit u = Inr (f u)" "pass_copy c orbit v = Inr (f u)"
      using eq by auto
    from pass_inj[OF valid _ _ this] u v show "u = v" by simp
  qed
  have run: "passes c orbit k u = Inr ((f ^^ k) u)" if "in_copies ?n u" for k u
    using that
  proof (induction k arbitrary: u)
    case 0
    show ?case by simp
  next
    case (Suc k)
    from pf[OF Suc.prems] have a: "pass_copy c orbit u = Inr (f u)" and b: "in_copies ?n (f u)"
      by simp_all
    from Suc.IH[OF b] a show ?case by (simp add: funpow_swap1)
  qed
  from funpow_returns[OF fin into inj, of x] x card obtain k where
    "0 < k" "k \<le> ?n" "(f ^^ k) x = x" by auto
  with run[OF x, of k] show ?thesis by auto
qed

text \<open>
  What a run of the two \<open>while\<close> statements returns, whether or not the labels carry
  permutations: the singularity that \<open>follow\<close> returns is the list of the traces of the
  passes from a list of copies that begins at the popped copy, each pass leading to the
  next copy of the list and the last one to the popped copy; the copies of the list after
  the first are those removed from the set.
\<close>

lemma follow_structure:
  "follow c orbit d_init copies st = Inr (sing, rest) \<Longrightarrow>
   \<exists>ys trs. ys \<noteq> [] \<and> hd ys = snd st \<and> for_each (pass_trace c orbit) ys = Inr trs \<and>
      sing = fst st @ concat trs \<and>
      (\<forall>i<length ys. pass_copy c orbit (ys ! i) = Inr ((ys @ [d_init]) ! Suc i)) \<and>
      mset (tl ys) + mset rest = mset copies \<and> (sorted copies \<longrightarrow> sorted rest)"
proof (induction c orbit d_init copies st arbitrary: sing rest rule: follow.induct)
  case (1 c orbit d_init cover_copies st)
  note unfold = follow.simps[of c orbit d_init cover_copies st]
  obtain sing0 x where st: "st = (sing0, x)" by (cases st)
  show ?case
  proof (cases "for_loop (turn c) orbit ([], x)")
    case (Inl e)
    then have "for_loop (turn c) orbit st = Inl e" unfolding st by (subst pass_prefix) simp
    with "1.prems" show ?thesis unfolding unfold by simp
  next
    case (Inr r)
    obtain tr y where r: "r = (tr, y)" by (cases r)
    have loop: "for_loop (turn c) orbit st = Inr (sing0 @ tr, y)"
      unfolding st by (subst pass_prefix) (simp add: Inr r)
    have pt: "pass_trace c orbit x = Inr tr" and pc: "pass_copy c orbit x = Inr y"
      by (simp_all add: pass_trace_def pass_copy_def Inr r)
    show ?thesis
    proof (cases "y = d_init")
      case True
      with "1.prems" loop have "sing = sing0 @ tr" "rest = cover_copies"
        unfolding unfold by simp_all
      with pt pc True st show ?thesis
        by (intro exI[of _ "[x]"] exI[of _ "[tr]"]) simp
    next
      case False
      with "1.prems" loop have mem: "y \<in> set cover_copies"
        unfolding unfold by (auto split: if_splits)
      with "1.prems" loop False
      have rec: "follow c orbit d_init (remove1 y cover_copies) (sing0 @ tr, y) = Inr (sing, rest)"
        unfolding unfold by simp
      have "\<exists>ys trs. ys \<noteq> [] \<and> hd ys = snd (sing0 @ tr, y) \<and>
              for_each (pass_trace c orbit) ys = Inr trs \<and>
              sing = fst (sing0 @ tr, y) @ concat trs \<and>
              (\<forall>i<length ys. pass_copy c orbit (ys ! i) = Inr ((ys @ [d_init]) ! Suc i)) \<and>
              mset (tl ys) + mset rest = mset (remove1 y cover_copies) \<and>
              (sorted (remove1 y cover_copies) \<longrightarrow> sorted rest)"
        using "1.IH"[of "(sing0 @ tr, y)" sing rest] loop False mem rec by simp
      then obtain ys trs where ys: "ys \<noteq> []" "hd ys = y"
        "for_each (pass_trace c orbit) ys = Inr trs" "sing = (sing0 @ tr) @ concat trs"
        "\<forall>i<length ys. pass_copy c orbit (ys ! i) = Inr ((ys @ [d_init]) ! Suc i)"
        "mset (tl ys) + mset rest = mset (remove1 y cover_copies)"
        "sorted (remove1 y cover_copies) \<longrightarrow> sorted rest"
        by auto
      from ys(1,2) have ysy: "ys = y # tl ys" by (cases ys) auto
      have links: "\<forall>i<length (x # ys).
                     pass_copy c orbit ((x # ys) ! i) = Inr (((x # ys) @ [d_init]) ! Suc i)"
      proof (intro allI impI)
        fix i assume "i < length (x # ys)"
        show "pass_copy c orbit ((x # ys) ! i) = Inr (((x # ys) @ [d_init]) ! Suc i)"
        proof (cases i)
          case 0
          with pc ys(1,2) show ?thesis by (simp add: nth_append hd_conv_nth)
        next
          case (Suc j)
          with \<open>i < length (x # ys)\<close> ys(5) show ?thesis by simp
        qed
      qed
      have ms: "mset (tl (x # ys)) + mset rest = mset cover_copies"
      proof -
        have "mset ys = {#y#} + mset (tl ys)" by (subst ysy) simp
        with ys(6) mem show ?thesis by simp
      qed
      have srt: "sorted cover_copies \<longrightarrow> sorted rest"
        using ys(7) by (auto intro: sorted_remove1)
      from ys(3) pt have fe: "for_each (pass_trace c orbit) (x # ys) = Inr (tr # trs)" by simp
      show ?thesis
        using fe ys(4) links ms srt st
        by (intro exI[of _ "x # ys"] exI[of _ "tr # trs"]) simp
    qed
  qed
qed

lemma lift_structure:
  "lift c orbit copies = Inr ss \<Longrightarrow> sorted copies \<Longrightarrow> distinct copies \<Longrightarrow>
   \<exists>yss. map (orbit_trace c orbit) yss = map Inr ss \<and>
      (\<forall>ys\<in>set yss. closed_orbit c orbit ys \<and> (\<forall>x\<in>set ys. hd ys \<le> x)) \<and>
      mset (concat yss) = mset copies \<and> sorted_wrt (<) (map hd yss)"
proof (induction c orbit copies arbitrary: ss rule: lift.induct)
  case (1 c orbit)
  then show ?case by (simp add: lift.simps)
next
  case (2 c orbit d_init cover_copies)
  from "2.prems"(1) obtain res where res: "follow c orbit d_init cover_copies ([], d_init) = Inr res"
    by (cases "follow c orbit d_init cover_copies ([], d_init)") (simp_all add: lift.simps)
  obtain sing rest where sr: "res = (sing, rest)" by (cases res)
  from "2.prems"(1) res sr obtain ss' where ss': "lift c orbit rest = Inr ss'" "ss = sing # ss'"
    by (cases "lift c orbit rest") (auto simp: lift.simps)
  from follow_structure[OF res[unfolded sr]] obtain ys trs where
    ys: "ys \<noteq> []" "hd ys = d_init" "for_each (pass_trace c orbit) ys = Inr trs"
        "sing = concat trs"
        "\<forall>i<length ys. pass_copy c orbit (ys ! i) = Inr ((ys @ [d_init]) ! Suc i)"
        "mset (tl ys) + mset rest = mset cover_copies" "sorted cover_copies \<longrightarrow> sorted rest"
    by auto
  from "2.prems"(2,3) have low: "\<forall>x\<in>set cover_copies. d_init < x" and sc: "sorted cover_copies"
    and dc: "distinct cover_copies"
    by (auto simp: order_less_le)
  from ys(6) have "mset (tl ys @ rest) = mset cover_copies" by simp
  from mset_eq_imp_distinct_iff[OF this] dc have "distinct (tl ys @ rest)" by simp
  then have dr: "distinct rest" by simp
  from ys(7) sc have sr': "sorted rest" by simp
  from ys(6) have sets: "set (tl ys) \<union> set rest = set cover_copies"
    by (metis set_mset_mset set_mset_union)
  have "\<exists>yss. map (orbit_trace c orbit) yss = map Inr ss' \<and>
      (\<forall>ys\<in>set yss. closed_orbit c orbit ys \<and> (\<forall>x\<in>set ys. hd ys \<le> x)) \<and>
      mset (concat yss) = mset rest \<and> sorted_wrt (<) (map hd yss)"
    using "2.IH"[of res ss'] res sr ss' sr' dr by simp
  then obtain yss where yss: "map (orbit_trace c orbit) yss = map Inr ss'"
    "\<forall>ys\<in>set yss. closed_orbit c orbit ys \<and> (\<forall>x\<in>set ys. hd ys \<le> x)"
    "mset (concat yss) = mset rest" "sorted_wrt (<) (map hd yss)"
    by auto
  from ys(1,2) have ysd: "ys = d_init # tl ys" by (cases ys) auto
  have closed: "closed_orbit c orbit ys"
    unfolding closed_orbit_def
  proof (intro conjI ballI)
    show "ys \<noteq> []" by (rule ys(1))
  next
    fix i assume "i \<in> {0..<length ys}"
    then have i: "i < length ys" by simp
    have "(ys @ [d_init]) ! Suc i = ys ! (Suc i mod length ys)"
    proof (cases "Suc i = length ys")
      case True
      with ys(1,2) show ?thesis by (simp add: nth_append hd_conv_nth)
    next
      case False
      with i have "Suc i < length ys" by simp
      then show ?thesis by (simp add: nth_append)
    qed
    with ys(5) i show "pass_copy c orbit (ys ! i) = Inr (ys ! (Suc i mod length ys))" by simp
  qed
  have least: "\<forall>x\<in>set ys. hd ys \<le> x"
  proof
    fix x assume "x \<in> set ys"
    then have "x = d_init \<or> x \<in> set (tl ys)" by (subst (asm) ysd) auto
    with sets low ys(2) show "hd ys \<le> x" by (auto simp: order_less_le)
  qed
  have later: "\<forall>zs\<in>set yss. hd ys < hd zs"
  proof
    fix zs assume zs: "zs \<in> set yss"
    with yss(2) have "zs \<noteq> []" by (auto simp: closed_orbit_def)
    then have "hd zs \<in> set zs" by simp
    with zs have "hd zs \<in> set (concat yss)" by auto
    then have "hd zs \<in> set rest" using yss(3) by (metis set_mset_mset)
    with sets low ys(2) show "hd ys < hd zs" by auto
  qed
  have tr: "orbit_trace c orbit ys = Inr sing"
    by (simp add: orbit_trace_def ys(3,4))
  have ms: "mset (concat (ys # yss)) = mset (d_init # cover_copies)"
  proof -
    have "mset ys = {#d_init#} + mset (tl ys)" by (subst ysd) simp
    with ys(6) yss(3) show ?thesis by simp
  qed
  show ?case
    using tr yss closed least later ms ss'(2)
    by (intro exI[of _ "ys # yss"]) simp
qed

lemma singularities_over_structure:
  assumes "singularities_over c orbit = Inr ss"
  shows "\<exists>yss. map (orbit_trace c orbit) yss = map Inr ss \<and>
      (\<forall>ys\<in>set yss. closed_orbit c orbit ys \<and> (\<forall>x\<in>set ys. hd ys \<le> x)) \<and>
      mset (concat yss) = mset (map int [0..<degree_cover c]) \<and> sorted_wrt (<) (map hd yss)"
proof -
  from assms have l: "lift c orbit (map int [0..<degree_cover c]) = Inr ss"
    by (simp add: singularities_over_def split: if_splits)
  have s: "sorted (map int [0..<degree_cover c])"
    by (simp add: sorted_map sorted_wrt_iff_nth_less)
  have d: "distinct (map int [0..<degree_cover c])" by (simp add: distinct_map)
  from lift_structure[OF l s d] show ?thesis .
qed


lemma cover_s3_valid:
  "\<forall>orbit\<in>set (diagram_unglued (base cover_s3)).
     orbit \<noteq> [] \<and> (\<forall>occ\<in>set orbit. valid_occ cover_s3 occ)"
  by (simp add: cover_s3_def base_aab_bcc_def valid_occ_def upt_rec[of _ "numeral _"])

lemma interval_diagram_cover_s3:
  "interval_diagram cover_s3 False True =
     Inr [[(0, Some 0, 0), (1, Some 0, 1), (0, Some 0, 1), (1, Some 0, 0),
           (0, Some 0, 2), (1, Some 0, 2)],
          [(0, Some 1, 0), (0, Some 1, 1)], [(0, Some 1, 2)],
          [(1, Some 1, 0), (2, Some 1, 2), (1, Some 1, 2), (2, Some 1, 0)],
          [(1, Some 1, 1), (2, Some 1, 1)],
          [(2, Some 0, 0)], [(2, Some 0, 1)], [(2, Some 0, 2)]]"
  by code_simp

text \<open>
  C9. \<open>interval_diagram\<close> terminates, every orbit of copies it follows closes, and its
  orbits partition the copies. The hypothesis is the invariant of the data model: no base
  orbit is empty, and every label of the base diagram carries a permutation of the copies
  \<open>0, \<dots>, degree - 1\<close>. Then the method returns (no \<open>KeyError\<close>, \<open>ValueError\<close> or
  \<open>IndexError\<close>; every \<open>while\<close> statement ends on every input), and for every base orbit
  the singularities over it are the traces of closed orbits of the copies: each
  singularity is the list of the triples appended by the passes from the copies of one list,
  in which a pass from a copy leads to the next copy and a pass from the last copy leads
  back to the first; each list begins at its least copy; the lists hold every copy of
  the cover exactly once; and the singularities come in the order of their least copies.
  It follows that the copies at which the passes begin are all the copies, each once, and
  from any copy a number of passes between 1 and the degree leads back to that copy.
\<close>

theorem interval_diagram_closes:
  assumes "\<forall>orbit\<in>set (diagram_unglued (base c)).
             orbit \<noteq> [] \<and> (\<forall>occ\<in>set orbit. valid_occ c occ)"
  shows "\<exists>sss. for_each (singularities_over c) (diagram_unglued (base c)) = Inr sss \<and>
           interval_diagram c glue_ends sign =
             Inr (map (map (\<lambda>t. (fst t, if sign then Some (fst (snd t)) else None,
                                   snd (snd t))))
                    (concat sss)) \<and>
           list_all2
             (\<lambda>orbit ss.
                (\<exists>yss. lifted_orbits c orbit ss yss) \<and>
                mset (concat (map (starts (length orbit)) ss)) =
                  mset (map int [0..<degree_cover c]) \<and>
                (\<forall>x. in_copies (degree_cover c) x \<longrightarrow>
                   (\<exists>k. 0 < k \<and> k \<le> degree_cover c \<and> passes c orbit k x = Inr x)))
             (diagram_unglued (base c)) sss"
proof -
  let ?Q = "\<lambda>orbit ss.
              (\<exists>yss. lifted_orbits c orbit ss yss) \<and>
              mset (concat (map (starts (length orbit)) ss)) =
                mset (map int [0..<degree_cover c]) \<and>
              (\<forall>x. in_copies (degree_cover c) x \<longrightarrow>
                 (\<exists>k. 0 < k \<and> k \<le> degree_cover c \<and> passes c orbit k x = Inr x))"
  have "\<forall>orbit\<in>set (diagram_unglued (base c)). \<exists>ss. singularities_over c orbit = Inr ss \<and> ?Q orbit ss"
  proof
    fix orbit assume "orbit \<in> set (diagram_unglued (base c))"
    with assms have ne: "orbit \<noteq> []" and valid: "\<forall>occ\<in>set orbit. valid_occ c occ" by auto
    from singularities_over_partition[OF valid ne] obtain ss where
      ss: "singularities_over c orbit = Inr ss"
          "mset (concat (map (starts (length orbit)) ss)) = mset (map int [0..<degree_cover c])"
      by blast
    from singularities_over_structure[OF ss(1)]
    have "\<exists>yss. lifted_orbits c orbit ss yss" unfolding lifted_orbits_def .
    with ss passes_return[OF valid]
    show "\<exists>ss. singularities_over c orbit = Inr ss \<and> ?Q orbit ss" by blast
  qed
  from for_each_all[OF this] obtain sss where
    "for_each (singularities_over c) (diagram_unglued (base c)) = Inr sss"
    "list_all2 ?Q (diagram_unglued (base c)) sss"
    by blast
  then show ?thesis by (auto simp: interval_diagram_def)
qed

theorem interval_diagram_closes_witness:
  "diagram_unglued (base cover_s3) = [[(0, 0), (1, 0)], [(0, 1)], [(1, 1), (2, 1)], [(2, 0)]] \<and>
   valid_occ cover_s3 (0, 0) \<and> valid_occ cover_s3 (1, 0) \<and> valid_occ cover_s3 (0, 1) \<and>
   valid_occ cover_s3 (1, 1) \<and> valid_occ cover_s3 (2, 1) \<and> valid_occ cover_s3 (2, 0) \<and>
   interval_diagram cover_s3 False True =
     Inr [[(0, Some 0, 0), (1, Some 0, 1), (0, Some 0, 1), (1, Some 0, 0),
           (0, Some 0, 2), (1, Some 0, 2)],
          [(0, Some 1, 0), (0, Some 1, 1)], [(0, Some 1, 2)],
          [(1, Some 1, 0), (2, Some 1, 2), (1, Some 1, 2), (2, Some 1, 0)],
          [(1, Some 1, 1), (2, Some 1, 1)],
          [(2, Some 0, 0)], [(2, Some 0, 1)], [(2, Some 0, 2)]] \<and>
   (\<exists>sss. for_each (singularities_over cover_s3) (diagram_unglued (base cover_s3)) = Inr sss \<and>
      interval_diagram cover_s3 False True =
        Inr (map (map (\<lambda>t. (fst t, Some (fst (snd t)), snd (snd t)))) (concat sss)) \<and>
      list_all2
        (\<lambda>orbit ss.
           (\<exists>yss. lifted_orbits cover_s3 orbit ss yss) \<and>
           mset (concat (map (starts (length orbit)) ss)) = mset (map int [0..<3]) \<and>
           (\<forall>x. in_copies 3 x \<longrightarrow> (\<exists>k. 0 < k \<and> k \<le> 3 \<and> passes cover_s3 orbit k x = Inr x)))
        (diagram_unglued (base cover_s3)) sss)"
proof -
  have deg: "degree_cover cover_s3 = 3" by (simp add: cover_s3_def)
  have diag: "diagram_unglued (base cover_s3) =
                [[(0, 0), (1, 0)], [(0, 1)], [(1, 1), (2, 1)], [(2, 0)]]"
    by (simp add: cover_s3_def base_aab_bcc_def)
  from cover_s3_valid have occs:
    "valid_occ cover_s3 (0, 0)" "valid_occ cover_s3 (1, 0)" "valid_occ cover_s3 (0, 1)"
    "valid_occ cover_s3 (1, 1)" "valid_occ cover_s3 (2, 1)" "valid_occ cover_s3 (2, 0)"
    unfolding diag by simp_all
  from interval_diagram_closes[OF cover_s3_valid, of False True]
  have "\<exists>sss. for_each (singularities_over cover_s3) (diagram_unglued (base cover_s3)) = Inr sss \<and>
      interval_diagram cover_s3 False True =
        Inr (map (map (\<lambda>t. (fst t, Some (fst (snd t)), snd (snd t)))) (concat sss)) \<and>
      list_all2
        (\<lambda>orbit ss.
           (\<exists>yss. lifted_orbits cover_s3 orbit ss yss) \<and>
           mset (concat (map (starts (length orbit)) ss)) = mset (map int [0..<3]) \<and>
           (\<forall>x. in_copies 3 x \<longrightarrow> (\<exists>k. 0 < k \<and> k \<le> 3 \<and> passes cover_s3 orbit k x = Inr x)))
        (diagram_unglued (base cover_s3)) sss"
    unfolding deg by simp
  with diag occs interval_diagram_cover_s3 show ?thesis by (intro conjI)
qed

section \<open>Properties of the profile, the genus and the orientability\<close>

lemma profile_orbit_entries:
  assumes "for_loop (profile_orbit c) orbits s = Inr s'"
    and "\<forall>x\<in>set s. \<exists>orbit\<in>set all. int (length orbit) dvd x"
    and "set orbits \<subseteq> set all"
  shows "\<forall>x\<in>set s'. \<exists>orbit\<in>set all. int (length orbit) dvd x"
  using assms
proof (induction orbits arbitrary: s)
  case Nil
  then show ?case by simp
next
  case (Cons orbit orbits)
  from Cons.prems(1) obtain s1 where s1: "profile_orbit c s orbit = Inr s1"
    and rest: "for_loop (profile_orbit c) orbits s1 = Inr s'"
    by (cases "profile_orbit c s orbit") auto
  from s1 obtain p where "s1 = s @ map (\<lambda>k. int (length orbit) * k) (cycle_type p)"
    by (auto simp: profile_orbit_def split: sum.splits)
  moreover from Cons.prems(3) have "orbit \<in> set all" by simp
  then have "\<exists>o'\<in>set all. int (length o') dvd int (length orbit) * k" for k
    by (intro bexI[of _ orbit]) simp_all
  ultimately have "\<forall>x\<in>set s1. \<exists>orbit\<in>set all. int (length orbit) dvd x"
    using Cons.prems(2) by auto
  from Cons.IH[OF rest this] Cons.prems(3) show ?case by simp
qed

lemma profile_entries:
  assumes "profile c = Inr p"
  shows "\<forall>x\<in>set p. \<exists>orbit\<in>set (diagram_glued (base c)). int (length orbit) dvd x"
proof -
  from assms obtain s where s: "for_loop (profile_orbit c) (diagram_glued (base c)) [] = Inr s"
    and p: "p = Partition (rev (sort s))"
    by (cases "for_loop (profile_orbit c) (diagram_glued (base c)) []") (auto simp: profile_def)
  from profile_orbit_entries[OF s] have "\<forall>x\<in>set s. \<exists>orbit\<in>set (diagram_glued (base c)). int (length orbit) dvd x"
    by simp
  moreover from p have "set p \<subseteq> set s" by (auto simp: Partition_def)
  ultimately show ?thesis by blast
qed

text \<open>
  C7. If \<open>is_orientable()\<close> returns true, every entry of \<open>profile()\<close> is even. When the
  base is not of the interval-exchange kind this is the test \<open>any(x%2 for x in
  self.profile())\<close>. When it is, \<open>is_orientable()\<close> returns true without reading the
  profile, and the entries are even because each is a multiple of the length of an orbit of
  the base diagram: the hypothesis is that these lengths are even, which is what the
  collaborator gives for an interval exchange (every angle is a multiple of \<open>2\<pi>\<close>).
\<close>

theorem orientable_profile_even:
  assumes "is_orientable c = Inr True" and "profile c = Inr p"
    and "is_iet (base c) \<longrightarrow> (\<forall>orbit\<in>set (diagram_glued (base c)). even (length orbit))"
  shows "\<forall>x\<in>set p. even x"
proof (cases "is_iet (base c)")
  case True
  with assms(3) have ev: "\<forall>orbit\<in>set (diagram_glued (base c)). even (length orbit)" by simp
  show ?thesis
  proof
    fix x assume "x \<in> set p"
    with profile_entries[OF assms(2)] obtain orbit where
      "orbit \<in> set (diagram_glued (base c))" "int (length orbit) dvd x" by blast
    with ev show "even x" by (meson dvd_trans even_of_nat)
  qed
next
  case False
  with assms(1,2) have "\<not> (\<exists>x\<in>set p. x mod 2 \<noteq> 0)"
    by (auto simp: is_orientable_def split: if_splits)
  then show ?thesis by (auto simp: even_iff_mod_2_eq_zero)
qed


lemma profile_cover_orientable: "profile cover_orientable = Inr [2, 2, 2, 2]"
  by (simp add: profile_def profile_orbit_def compose_def covering_data_def Permutation_def
      cover_orientable_def base_aab_bcc_def flatten_def getitem_def py_pos_def
      perm_mult_def perm_inverse_def perm_apply_def cycle_type_def cycle_of_def Partition_def
      upt_rec[of _ "numeral _"] upt_rec[of _ "Suc _"])


lemma profile_cover_ab_s3: "profile cover_ab_s3 = Inr [6]"
  by (simp add: profile_def profile_orbit_def compose_def covering_data_def Permutation_def
      cover_ab_s3_def base_ab_ba_def flatten_def getitem_def py_pos_def
      perm_mult_def perm_inverse_def perm_apply_def cycle_type_def cycle_of_def Partition_def
      upt_rec[of _ "numeral _"] upt_rec[of _ "Suc _"]) blast

lemma is_orientable_cover_orientable: "is_orientable cover_orientable = Inr True"
  by (simp add: is_orientable_def profile_cover_orientable)
    (simp add: cover_orientable_def base_aab_bcc_def inv_letters_def unfold_signs.simps
      getitem_def setitem_def py_pos_def)



theorem orientable_profile_even_witness:
  "is_orientable cover_orientable = Inr True \<and> profile cover_orientable = Inr [2, 2, 2, 2] \<and>
   \<not> is_iet (base cover_orientable) \<and> list_all even [2, 2, 2, 2 :: int] \<and>
   is_orientable cover_ab_s3 = Inr True \<and> profile cover_ab_s3 = Inr [6] \<and>
   is_iet (base cover_ab_s3) \<and> map length (diagram_glued (base cover_ab_s3)) = [2] \<and>
   list_all even [6 :: int]"
proof -
  have h1: "is_iet (base cover_orientable) \<longrightarrow>
            (\<forall>orbit\<in>set (diagram_glued (base cover_orientable)). even (length orbit))"
    by (simp add: cover_orientable_def base_aab_bcc_def)
  have o2: "is_orientable cover_ab_s3 = Inr True"
    by (simp add: is_orientable_def cover_ab_s3_def base_ab_ba_def)
  have h2: "is_iet (base cover_ab_s3) \<longrightarrow>
            (\<forall>orbit\<in>set (diagram_glued (base cover_ab_s3)). even (length orbit))"
    by (simp add: cover_ab_s3_def base_ab_ba_def)
  have b: "\<not> is_iet (base cover_orientable)" "is_iet (base cover_ab_s3)"
    "map length (diagram_glued (base cover_ab_s3)) = [2]"
    by (simp_all add: cover_orientable_def base_aab_bcc_def cover_ab_s3_def base_ab_ba_def)
  from orientable_profile_even[OF is_orientable_cover_orientable profile_cover_orientable h1]
    orientable_profile_even[OF o2 profile_cover_ab_s3 h2]
    is_orientable_cover_orientable profile_cover_orientable o2 profile_cover_ab_s3 b
  show ?thesis by simp
qed

section \<open>Properties of the homology matrices\<close>

lemma reduce_row_ok:
  assumes "row_ok M m piv" and "row_ok M m r"
  shows "row_ok M m (reduce_row j piv r)"
proof -
  define f where "f = fst r ! j / fst piv ! j"
  have red: "reduce_row j piv r =
      (map2 (\<lambda>x y. x - f * y) (fst r) (fst piv), map2 (\<lambda>x y. x - f * y) (snd r) (snd piv))"
    by (simp add: reduce_row_def f_def Let_def)
  from assms have len: "length (fst piv) = m" "length (fst r) = m"
    "length (snd piv) = length M" "length (snd r) = length M"
    by (simp_all add: row_ok_def)
  have "fst (reduce_row j piv r) ! i = (\<Sum>k<length M. snd (reduce_row j piv r) ! k * M ! k ! i)"
    if i: "i < m" for i
  proof -
    from assms i have a: "fst r ! i = (\<Sum>k<length M. snd r ! k * M ! k ! i)"
      and b: "fst piv ! i = (\<Sum>k<length M. snd piv ! k * M ! k ! i)"
      by (simp_all add: row_ok_def)
    have "(\<Sum>k<length M. snd (reduce_row j piv r) ! k * M ! k ! i) =
            (\<Sum>k<length M. snd r ! k * M ! k ! i - f * (snd piv ! k * M ! k ! i))"
      by (rule sum.cong) (simp_all add: red len algebra_simps)
    also have "\<dots> = fst r ! i - f * fst piv ! i"
      by (simp add: a b sum_subtractf sum_distrib_left)
    finally show ?thesis using i by (simp add: red len)
  qed
  then show ?thesis by (simp add: row_ok_def red len)
qed

lemma eliminate_ok:
  "\<forall>r\<in>set rows. row_ok M m r \<Longrightarrow> \<forall>r\<in>set (eliminate js rows). row_ok M m r"
proof (induction js arbitrary: rows)
  case Nil
  then show ?case by simp
next
  case (Cons j js)
  show ?case
  proof (cases "find (\<lambda>r. fst r ! j \<noteq> 0) rows")
    case None
    with Cons show ?thesis by simp
  next
    case (Some piv)
    then have "piv \<in> set rows" by (auto simp: find_Some_iff)
    with Cons.prems have p: "row_ok M m piv" by blast
    have "\<forall>r\<in>set (map (reduce_row j piv) (remove1 piv rows)). row_ok M m r"
    proof
      fix r assume "r \<in> set (map (reduce_row j piv) (remove1 piv rows))"
      then obtain r0 where "r0 \<in> set rows" "r = reduce_row j piv r0"
        by (auto dest: notin_set_remove1)
      with Cons.prems p show "row_ok M m r" by (auto intro: reduce_row_ok)
    qed
    from Cons.IH[OF this] Some show ?thesis by simp
  qed
qed

lemma unit_rows_ok:
  fixes M :: "'a::field list list"
  assumes "\<forall>row\<in>set M. length row = m"
  shows "\<forall>r\<in>set (zip M (unit_rows (length M) :: 'a list list)). row_ok M m r"
proof
  fix r assume "r \<in> set (zip M (unit_rows (length M) :: 'a list list))"
  then obtain i where i: "i < length M" "r = (M ! i, unit_rows (length M) ! i)"
    by (auto simp: in_set_zip unit_rows_def)
  have u: "(unit_rows (length M) :: 'a list list) ! i =
             map (\<lambda>k. if k = i then 1 else 0) [0..<length M]"
    using i(1) by (simp add: unit_rows_def)
  have "(\<Sum>k<length M. ((unit_rows (length M) :: 'a list list) ! i) ! k * M ! k ! j) =
          M ! i ! j" for j
  proof -
    have "(\<Sum>k<length M. ((unit_rows (length M) :: 'a list list) ! i) ! k * M ! k ! j) =
            (\<Sum>k<length M. if k = i then M ! k ! j else 0)"
      by (rule sum.cong) (simp_all add: u)
    also have "\<dots> = M ! i ! j" using i(1) by simp
    finally show ?thesis .
  qed
  with assms i show "row_ok M m r" by (simp add: row_ok_def u)
qed

lemma left_kernel_sound:
  assumes "\<forall>row\<in>set M. length row = m" and "v \<in> set (left_kernel M)"
  shows "length v = length M \<and> (\<forall>j<m. (\<Sum>k<length M. v ! k * M ! k ! j) = 0)"
proof -
  let ?rows = "eliminate [0..<(if M = [] then 0 else length (hd M))] (zip M (unit_rows (length M)))"
  from assms(2) obtain r where r: "r \<in> set ?rows" "\<forall>x\<in>set (fst r). x = 0" "v = snd r"
    by (auto simp: left_kernel_def)
  from eliminate_ok[OF unit_rows_ok[OF assms(1)]] r(1) have ok: "row_ok M m r" by blast
  then have "length (fst r) = m" by (simp add: row_ok_def)
  with r(2) have "\<forall>j<m. fst r ! j = 0" by simp
  with ok r(3) show ?thesis by (simp add: row_ok_def)
qed

lemma for_each_results:
  "for_each f xs = Inr ys \<Longrightarrow> \<forall>y\<in>set ys. \<exists>x\<in>set xs. f x = Inr y"
proof (induction xs arbitrary: ys)
  case Nil
  then show ?case by simp
next
  case (Cons x xs)
  from Cons.prems obtain y ys' where "f x = Inr y" "for_each f xs = Inr ys'" "ys = y # ys'"
    by (cases "f x"; cases "for_each f xs") auto
  with Cons.IH[of ys'] show ?case by auto
qed

lemma setitem_length: "setitem xs i v = Inr ys \<Longrightarrow> length ys = length xs"
  by (auto simp: setitem_def split: sum.splits)

lemma border_side_length:
  assumes "border_side singularities da = Inr b"
  shows "length b = length singularities"
proof -
  let ?i = "sing_index (snd da, Some 0, int (fst da)) singularities"
  let ?j = "sing_index (snd da, Some 1, int (fst da)) singularities"
  from assms obtain b1 where
    b1: "setitem (replicate (length singularities) (0::int)) (int ?i) 1 = Inr b1"
    by (cases "setitem (replicate (length singularities) (0::int)) (int ?i) 1")
       (auto simp: border_side_def Let_def)
  from assms b1 obtain b2 where b2: "setitem b1 (int ?j) (- 1) = Inr b2"
    by (cases "setitem b1 (int ?j) (- 1)") (auto simp: border_side_def Let_def)
  from assms b1 b2 have "b = b2 \<or> setitem b2 (int ?j) 0 = Inr b"
    by (auto simp: border_side_def Let_def split: if_splits)
  with setitem_length[OF b1] setitem_length[OF b2] show ?thesis
    by (auto dest: setitem_length)
qed

text \<open>
  C8. Every row of the matrix that \<open>homology_cycle_matrix()\<close> returns lies in the left null
  space of the border matrix it is extracted from: the row has one coefficient for each
  pair \<open>(copy, label)\<close>, in the indexing of \<open>rel_homology_generator\<close>, and for every
  singularity \<open>j\<close> the combination of the column \<open>j\<close> of the borders with these
  coefficients is zero (the boundary of a cycle is zero).
\<close>

theorem cycle_rows_in_left_kernel:
  assumes "homology_cycle_matrix c = Inr H"
  shows "\<exists>singularities borders.
           interval_diagram c False True = Inr singularities \<and>
           cycle_borders c = Inr borders \<and>
           (\<forall>row\<in>set H. length row = length borders \<and>
              (\<forall>j<length singularities.
                 (\<Sum>k<length borders. row ! k * of_int (borders ! k ! j)) = 0))"
proof -
  from assms obtain borders where B: "cycle_borders c = Inr borders"
    and H: "H = left_kernel (map (map of_int) borders)"
    by (cases "cycle_borders c") (auto simp: homology_cycle_matrix_def)
  from B obtain singularities where S: "interval_diagram c False True = Inr singularities"
    and F: "for_each (border_side singularities) (rel_homology_generator c) = Inr borders"
    by (cases "interval_diagram c False True") (auto simp: cycle_borders_def)
  let ?M = "map (map of_int) borders :: rat list list"
  from for_each_results[OF F] have "\<forall>b\<in>set borders. length b = length singularities"
    by (auto dest: border_side_length)
  then have rect: "\<forall>row\<in>set ?M. length row = length singularities" by simp
  have "length row = length borders \<and>
        (\<forall>j<length singularities. (\<Sum>k<length borders. row ! k * of_int (borders ! k ! j)) = 0)"
    if row: "row \<in> set H" for row
  proof -
    from left_kernel_sound[OF rect] row H
    have len: "length row = length ?M"
      and z: "\<forall>j<length singularities. (\<Sum>k<length ?M. row ! k * ?M ! k ! j) = 0"
      by simp_all
    have "(\<Sum>k<length borders. row ! k * of_int (borders ! k ! j)) = 0"
      if j: "j < length singularities" for j
    proof -
      have "(\<Sum>k<length borders. row ! k * of_int (borders ! k ! j)) =
              (\<Sum>k<length ?M. row ! k * ?M ! k ! j)"
      proof (rule sum.cong)
        fix k assume "k \<in> {..<length ?M}"
        then have k: "k < length borders" by simp
        then have "borders ! k \<in> set borders" by simp
        with \<open>\<forall>b\<in>set borders. length b = length singularities\<close> j
        have "j < length (borders ! k)" by simp
        with k show "row ! k * of_int (borders ! k ! j) = row ! k * ?M ! k ! j" by simp
      qed simp
      with z j show ?thesis by simp
    qed
    with len show ?thesis by simp
  qed
  with B S show ?thesis by blast
qed

lemma homology_cycle_matrix_cover_orientable: "homology_cycle_matrix cover_orientable =
   Inr [[- 1, 0, 0, 1, 0, 0], [0, - 1, 0, 0, 1, 0], [0, 0, - 1, 0, 0, 1]]"
  by code_simp

section \<open>Properties of the Lyapunov orchestration\<close>

text \<open>
  C4. The validation of \<open>lyapunov_exponents_H_plus\<close>, with the guards in the order of the
  source. \<open>v\<close> is the number of vectors, the argument or, by default, the genus. The
  method raises the invalid-argument error when \<open>v < 0\<close>; when \<open>v = 0\<close> it returns the
  empty result whatever the other arguments are; otherwise it raises the invalid-argument
  error when \<open>nb_experiments \<le> 0\<close>, when \<open>nb_iterations \<le> 0\<close>, or when the length of the
  flattened table of permutations is not a multiple of \<open>len(self)\<close>. The hypotheses: the
  default does not raise, \<open>stratum()\<close> does not raise when \<open>verbose\<close> has it written out
  before the guards, and the base has an interval.
\<close>

theorem lyapunov_validation:
  assumes "(case nb_vectors a of None \<Rightarrow> genus c | Some v' \<Rightarrow> Inr v') = Inr v"
    and "verbose a \<longrightarrow> (\<exists>s. stratum c = Inr s)"
    and "0 < length_base (base c)"
  shows "(v < 0 \<longrightarrow> lyapunov_exponents_H_plus P c a = Inl ValueError) \<and>
         (v = 0 \<longrightarrow> lyapunov_exponents_H_plus P c a = Inr Empty_result) \<and>
         (v \<noteq> 0 \<and>
          (nb_experiments a \<le> 0 \<or> nb_iterations a \<le> 0 \<or>
           \<not> int (length_base (base c)) dvd int (length (concat (permut_cover c)))) \<longrightarrow>
          lyapunov_exponents_H_plus P c a = Inl ValueError)"
proof -
  from assms(2) have u: "(if verbose a then map_sum id (\<lambda>s. ()) (stratum c) else Inr ()) = Inr ()"
    by auto
  from assms(3) have n: "int (length_base (base c)) \<noteq> 0" by simp
  have m: "int (length (concat (permut_cover c))) mod int (length_base (base c)) \<noteq> 0"
    if "\<not> int (length_base (base c)) dvd int (length (concat (permut_cover c)))"
    using that by (simp add: dvd_eq_mod_eq_0)
  show ?thesis
    unfolding lyapunov_exponents_H_plus_def Let_def assms(1) u
    using n m by simp
qed

theorem lyapunov_validation_witness:
  "genus cover_orientable = Inr 1 \<and> 0 < length_base (base cover_orientable) \<and>
   lyapunov_exponents_H_plus gap_c2 cover_orientable
     (default_arguments\<lparr>nb_vectors := Some (- 1)\<rparr>) = Inl ValueError \<and>
   lyapunov_exponents_H_plus gap_c2 cover_orientable
     (default_arguments\<lparr>nb_vectors := Some 0, nb_experiments := 0, nb_iterations := 0\<rparr>) =
     Inr Empty_result \<and>
   lyapunov_exponents_H_plus gap_c2 cover_orientable
     (default_arguments\<lparr>nb_experiments := 0\<rparr>) = Inl ValueError \<and>
   lyapunov_exponents_H_plus gap_c2 cover_orientable
     (default_arguments\<lparr>nb_iterations := 0\<rparr>) = Inl ValueError \<and>
   lyapunov_exponents_H_plus gap_c2 cover_short
     (default_arguments\<lparr>nb_vectors := Some 1\<rparr>) = Inl ValueError"
proof -
  have g: "genus cover_orientable = Inr 1"
    by (simp add: genus_def profile_cover_orientable)
  have n: "0 < length_base (base cover_orientable)" "0 < length_base (base cover_short)"
    by (simp_all add: cover_orientable_def cover_short_def base_aab_bcc_def)
  have nv: "\<not> int (length_base (base cover_short)) dvd
              int (length (concat (permut_cover cover_short)))"
    by (simp add: cover_short_def base_aab_bcc_def)
  note t = lyapunov_validation[where P = gap_c2]
  have "lyapunov_exponents_H_plus gap_c2 cover_orientable
          (default_arguments\<lparr>nb_vectors := Some (- 1)\<rparr>) = Inl ValueError"
    using t[where a = "default_arguments\<lparr>nb_vectors := Some (- 1)\<rparr>" and c = cover_orientable and v = "- 1"] n
    by (simp add: default_arguments_def)
  moreover have "lyapunov_exponents_H_plus gap_c2 cover_orientable
     (default_arguments\<lparr>nb_vectors := Some 0, nb_experiments := 0, nb_iterations := 0\<rparr>) =
     Inr Empty_result"
    using t[where a = "default_arguments\<lparr>nb_vectors := Some 0, nb_experiments := 0,
                 nb_iterations := 0\<rparr>" and c = cover_orientable and v = 0] n
    by (simp add: default_arguments_def)
  moreover have "lyapunov_exponents_H_plus gap_c2 cover_orientable
     (default_arguments\<lparr>nb_experiments := 0\<rparr>) = Inl ValueError"
    using t[where a = "default_arguments\<lparr>nb_experiments := 0\<rparr>" and c = cover_orientable and v = 1] n g
    by (simp add: default_arguments_def)
  moreover have "lyapunov_exponents_H_plus gap_c2 cover_orientable
     (default_arguments\<lparr>nb_iterations := 0\<rparr>) = Inl ValueError"
    using t[where a = "default_arguments\<lparr>nb_iterations := 0\<rparr>" and c = cover_orientable and v = 1] n g
    by (simp add: default_arguments_def)
  moreover have "lyapunov_exponents_H_plus gap_c2 cover_short
     (default_arguments\<lparr>nb_vectors := Some 1\<rparr>) = Inl ValueError"
    using t[where a = "default_arguments\<lparr>nb_vectors := Some 1\<rparr>" and c = cover_short and v = 1] n nv
    by (simp add: default_arguments_def)
  ultimately show ?thesis using g n by simp
qed

lemma occurrence_tables_cover_orientable:
  "occurrence_tables cover_orientable = Inr ([0, 0, 1, 1, 2, 2], [1, 0, 3, 2, 5, 4])"
  by (simp add: occurrence_tables_def fill_occurrence_def cover_orientable_def base_aab_bcc_def
      setitem_def getitem_def py_pos_def upt_rec[of _ "numeral _"] upt_rec[of _ "Suc _"])

text \<open>Whatever the arguments, the call of the engine has no lengths.\<close>

lemma engine_lengths_always_None:
  "lyapunov_exponents_H_plus P c a = Inr (Engine call) \<Longrightarrow> engine_lengths call = None"
  by (auto simp: lyapunov_exponents_H_plus_def Let_def split: sum.splits if_splits option.splits)

text \<open>
  C5. The claim: with \<open>lengths\<close> given, the engine is called with these lengths. The
  source converts them (\<open>lengths = map(int, lengths)\<close>) and then passes the literal
  \<open>None\<close>: with \<open>lengths = [3, 2, 1]\<close> the call has no lengths.
\<close>

theorem engine_lengths_dropped:
  "lyapunov_exponents_H_plus gap_c2 cover_orientable
     (default_arguments\<lparr>nb_vectors := Some 1, lengths := Some [3, 2, 1]\<rparr>) =
   Inr (Engine
     \<lparr>engine_gp = [0, 0, 1, 1, 2, 2], engine_k = 3, engine_twin = [1, 0, 3, 2, 5, 4],
      engine_sigma = [1, 0, 0, 1, 1, 0], engine_experiments = 100,
      engine_iterations = 32768, engine_dimensions = [1], engine_projections = None,
      engine_lengths = None,
      engine_verbose = False\<rparr>)"
proof -
  have fields: "length_base (base cover_orientable) = 3"
    "permut_cover cover_orientable = [[1, 0], [0, 1], [1, 0]]"
    "line0 (base cover_orientable) = [0, 0, 1]"
    by (simp_all add: cover_orientable_def base_aab_bcc_def)
  show ?thesis
    by (simp add: lyapunov_exponents_H_plus_def default_arguments_def
        occurrence_tables_cover_orientable fields)
qed

theorem cycle_rows_in_left_kernel_witness:
  "homology_cycle_matrix cover_orientable =
     Inr [[- 1, 0, 0, 1, 0, 0], [0, - 1, 0, 0, 1, 0], [0, 0, - 1, 0, 0, 1]] \<and>
   (\<exists>singularities borders.
      interval_diagram cover_orientable False True = Inr singularities \<and>
      cycle_borders cover_orientable = Inr borders \<and>
      (\<forall>row\<in>set [[- 1, 0, 0, 1, 0, 0], [0, - 1, 0, 0, 1, 0], [0, 0, - 1, 0, 0, 1]].
         length row = length borders \<and>
         (\<forall>j<length singularities.
            (\<Sum>k<length borders. row ! k * of_int (borders ! k ! j)) = (0::rat))))"
  using cycle_rows_in_left_kernel[OF homology_cycle_matrix_cover_orientable] homology_cycle_matrix_cover_orientable by blast

end
